theory Spec2Isabelle
  imports Complex_Main "HOL-Library.AList"
begin

section \<open>JavaScript values\<close>

text \<open>
  A JavaScript string is a sequence of UTF-16 code units; \<open>length\<close>, \<open>trim\<close>,
  \<open>split\<close>, \<open>includes\<close> and the regular expression of the sources all work on code
  units. \<open>js\<close> turns an ASCII literal into its code units.
\<close>

type_synonym jsstring = "nat list"

definition js :: "string \<Rightarrow> jsstring" where
  "js s = map of_char s"

text \<open>
  The values that reach the modules: the primitives, and \<open>JRef a\<close> for a (non-array)
  object, which the code only ever compares by identity. Numbers come out of
  \<open>JSON.parse\<close> or are array lengths; \<open>JNum\<close> carries their value, where \<open>-0\<close> and
  \<open>0\<close> are one value, as they are for \<open>===\<close>, for \<open>!\<close> and for the keys of a
  \<open>Map\<close>. Equality of HOL on \<open>jsval\<close> is then \<open>===\<close> and the key equality of
  \<open>Map\<close> and \<open>Set\<close>.
\<close>

datatype jsval =
    JUndefined
  | JNull
  | JBool bool
  | JNum rat
  | JStr jsstring
  | JRef nat

fun truthy :: "jsval \<Rightarrow> bool" where
  "truthy JUndefined = False"
| "truthy JNull = False"
| "truthy (JBool b) = b"
| "truthy (JNum r) = (r \<noteq> 0)"
| "truthy (JStr s) = (s \<noteq> [])"
| "truthy (JRef a) = True"

text \<open>
  An element of a parsed array, or the \<open>data\<close> of a message event: a primitive, or
  an object with its own properties, each name once. Reading a property that the
  object does not have, or one of the properties the modules read from a primitive,
  gives \<open>undefined\<close>.
\<close>

datatype jsitem =
    NonObject jsval
  | Object "(jsstring \<times> jsval) list"

fun item_truthy :: "jsitem \<Rightarrow> bool" where
  "item_truthy (NonObject v) = truthy v"
| "item_truthy (Object ps) = True"

fun get_prop :: "jsitem \<Rightarrow> jsstring \<Rightarrow> jsval" where
  "get_prop (NonObject v) p = JUndefined"
| "get_prop (Object ps) p = (case map_of ps p of None \<Rightarrow> JUndefined | Some v \<Rightarrow> v)"

text \<open>
  A \<open>Map\<close> keeps its entries in insertion order and \<open>set\<close> on a key that is present
  replaces the value in place: an association list under \<open>AList.update\<close>. A \<open>Set\<close>
  is the list of its members, each once.
\<close>

type_synonym ('k, 'v) jsmap = "('k \<times> 'v) list"

definition map_has :: "('k, 'v) jsmap \<Rightarrow> 'k \<Rightarrow> bool" where
  "map_has m k = (map_of m k \<noteq> None)"

definition map_get :: "('k, jsval) jsmap \<Rightarrow> 'k \<Rightarrow> jsval" where
  "map_get m k = (case map_of m k of None \<Rightarrow> JUndefined | Some v \<Rightarrow> v)"

definition map_set :: "('k, 'v) jsmap \<Rightarrow> 'k \<Rightarrow> 'v \<Rightarrow> ('k, 'v) jsmap" where
  "map_set m k v = AList.update k v m"

definition map_size :: "('k, 'v) jsmap \<Rightarrow> nat" where
  "map_size m = length m"

definition set_add :: "'a list \<Rightarrow> 'a \<Rightarrow> 'a list" where
  "set_add s x = (if x \<in> set s then s else s @ [x])"

definition set_delete :: "'a list \<Rightarrow> 'a \<Rightarrow> 'a list" where
  "set_delete s x = removeAll x s"


section \<open>What the user is shown\<close>

text \<open>
  \<open>ShopeeUtils.showError\<close> logs, writes to the log panel and raises an alert;
  \<open>ShopeeUtils.addLogToUI\<close> writes a line to the log panel. The lines that carry
  an error or a count are kept, as the notices a call produces, in order; the
  messages are named after what the Chinese literal says. The lines that only narrate
  progress, and the console log, are left out: nothing reads them back.
\<close>

datatype level = Info | Success | Error | Warning

datatype message =
    EnterValidReturnSn
  | InvalidSnIgnored nat
  | NoValidReturnSnFound
  | ParsedValidReturnSn nat
  | NoReturnSnToMatch
  | NoOrderDataCrawlFirst
  | MatchedCount nat
  | UnmatchedCount nat
  | FilteredOutInvalid nat
  | NoOrdersToProcess

datatype notice =
    ShowError message
  | AddLogToUI message level


section \<open>ShopeeUtils\<close>

text \<open>
  \<open>validateReturnSn(sn)\<close> is \<open>/^[A-Z0-9]{3,20}$/.test(sn)\<close>. The expression is
  anchored at both ends and has no flags, so it is matched from the first code unit:
  \<open>match_class_rep cls lo hi\<close> is the matcher of \<open>cls{lo,hi}$\<close> on the rest of the
  input. At the end of the input the repetition must have reached its minimum; before
  the end, \<open>$\<close> fails, so one more code unit of the class has to be taken, which the
  maximum must still allow.
\<close>

definition upper_or_digit :: "nat \<Rightarrow> bool" where
  "upper_or_digit c = ((65 \<le> c \<and> c \<le> 90) \<or> (48 \<le> c \<and> c \<le> 57))"

fun match_class_rep :: "(nat \<Rightarrow> bool) \<Rightarrow> nat \<Rightarrow> nat \<Rightarrow> jsstring \<Rightarrow> bool" where
  "match_class_rep cls lo hi [] = (lo = 0)"
| "match_class_rep cls lo hi (c # cs) =
     (0 < hi \<and> cls c \<and> match_class_rep cls (lo - 1) (hi - 1) cs)"

definition validateReturnSn :: "jsstring \<Rightarrow> bool" where
  "validateReturnSn sn = match_class_rep upper_or_digit 3 20 sn"


section \<open>SNMatcher\<close>

text \<open>
  \<open>String.prototype.split('\n')\<close>: the pieces between line feeds (code unit 10), an
  empty input giving one empty piece. \<open>String.prototype.trim\<close> removes the white
  space and line terminators of ECMAScript from both ends.
\<close>

fun split_nl :: "jsstring \<Rightarrow> jsstring list" where
  "split_nl [] = [[]]"
| "split_nl (c # cs) =
     (if c = 10 then [] # split_nl cs
      else (case split_nl cs of [] \<Rightarrow> [[c]] | l # ls \<Rightarrow> (c # l) # ls))"

definition is_space :: "nat \<Rightarrow> bool" where
  "is_space c =
     ((9 \<le> c \<and> c \<le> 13) \<or> c = 32 \<or> c = 160 \<or> c = 5760 \<or> (8192 \<le> c \<and> c \<le> 8202)
      \<or> c = 8232 \<or> c = 8233 \<or> c = 8239 \<or> c = 8287 \<or> c = 12288 \<or> c = 65279)"

definition trim :: "jsstring \<Rightarrow> jsstring" where
  "trim s = rev (dropWhile is_space (rev (dropWhile is_space s)))"

record match =
  matched_sn :: jsstring
  matched_id :: jsval

record matcher_cache =
  userInput :: "jsstring list"
  matchedResults :: "match list"
  unmatchedSns :: "jsstring list"
  snToIdMap :: "(jsstring, jsval) jsmap"

text \<open>
  The \<open>forEach\<close> of \<open>parseUserInput\<close> pushes each line onto \<open>validSns\<close> or onto
  \<open>invalidSns\<close>.
\<close>

definition sort_line :: "jsstring \<Rightarrow> jsstring list \<times> jsstring list \<Rightarrow> jsstring list \<times> jsstring list" where
  "sort_line line acc =
     (if validateReturnSn line then (fst acc @ [line], snd acc)
      else (fst acc, snd acc @ [line]))"

definition parseUserInput ::
    "jsval \<Rightarrow> matcher_cache \<Rightarrow> jsstring list \<times> notice list \<times> matcher_cache" where
  "parseUserInput input c =
     (case input of
        JStr s \<Rightarrow>
          if s = [] then ([], [ShowError EnterValidReturnSn], c)
          else
            let lines = filter (\<lambda>line. length line > 0) (map trim (split_nl s));
                sorted = fold sort_line lines ([], []);
                validSns = fst sorted;
                invalidSns = snd sorted;
                warned = (if length invalidSns > 0
                          then [AddLogToUI (InvalidSnIgnored (length invalidSns)) Warning]
                          else [])
            in if length validSns = 0
               then ([], warned @ [ShowError NoValidReturnSnFound], c)
               else (validSns,
                     warned @ [AddLogToUI (ParsedValidReturnSn (length validSns)) Success],
                     c\<lparr>userInput := validSns\<rparr>)
      | _ \<Rightarrow> ([], [ShowError EnterValidReturnSn], c))"


text \<open>
  The match rate is computed on doubles: \<open>matched / total * 100\<close>, then
  \<open>toFixed(1)\<close>, then \<open>parseFloat\<close>. A finite double that is not negative is a pair
  \<open>(m, e)\<close> standing for \<open>m * 2 ^ e\<close>. \<open>round53 p q\<close> is the double nearest to
  the quotient \<open>p / q\<close>, a tie going to the even significand of 53 binary digits:
  the quotient is scaled by the power of two that brings it into
  \<open>[2 ^ 52, 2 ^ 53)\<close> and rounded to an integer there. Division and multiplication
  round the exact result once. The lengths of arrays are below \<open>2 ^ 32\<close>, so they
  are doubles themselves, the divisor is not zero where the source divides, and
  nothing here leaves the normal range.
\<close>

type_synonym double = "nat \<times> int"

definition dval :: "double \<Rightarrow> rat" where
  "dval d = (if 0 \<le> snd d then of_nat (fst d) * 2 ^ nat (snd d)
             else of_nat (fst d) / 2 ^ nat (- snd d))"

fun bitlen :: "nat \<Rightarrow> nat" where
  "bitlen n = (if n = 0 then 0 else Suc (bitlen (n div 2)))"

declare bitlen.simps [simp del]

definition round53 :: "nat \<Rightarrow> nat \<Rightarrow> double" where
  "round53 p q =
     (if p = 0 then (0, 0)
      else
        let d = int (bitlen p) - int (bitlen q);
            ex = (if (if 0 \<le> d then q * 2 ^ nat d \<le> p else q \<le> p * 2 ^ nat (- d))
                  then d else d - 1);
            e = ex - 52;
            num = (if e < 0 then p * 2 ^ nat (- e) else p);
            den = (if e < 0 then q else q * 2 ^ nat e);
            k = num div den;
            r = num mod den
        in (if den < 2 * r \<or> (2 * r = den \<and> odd k) then k + 1 else k, e))"

definition dnat :: "nat \<Rightarrow> double" where
  "dnat n = (n, 0)"

definition ddiv :: "double \<Rightarrow> double \<Rightarrow> double" where
  "ddiv a b = (case round53 (fst a) (fst b) of (k, e) \<Rightarrow> (k, e + snd a - snd b))"

definition dmul :: "double \<Rightarrow> double \<Rightarrow> double" where
  "dmul a b = (case round53 (fst a * fst b) 1 of (k, e) \<Rightarrow> (k, e + snd a + snd b))"

text \<open>
  \<open>x.toFixed(1)\<close> is the decimal notation of \<open>n / 10\<close> for the integer \<open>n\<close> that
  makes \<open>n / 10 - x\<close> closest to zero, the larger \<open>n\<close> when there are two;
  \<open>toFixed1\<close> gives this number of tenths and \<open>parseFloat_tenths\<close> reads the
  notation back as the nearest double.
\<close>

definition toFixed1 :: "double \<Rightarrow> nat" where
  "toFixed1 x =
     (if 0 \<le> snd x then 10 * fst x * 2 ^ nat (snd x)
      else (20 * fst x + 2 ^ nat (- snd x)) div (2 * 2 ^ nat (- snd x)))"

definition parseFloat_tenths :: "nat \<Rightarrow> double" where
  "parseFloat_tenths n = round53 n 10"

record match_outcome =
  matched :: "match list"
  unmatched :: "jsstring list"
  matchRate :: double

text \<open>
  \<open>crawledMap\<close> is the crawler's \<open>Map\<close>, keyed by whatever \<open>return_sn\<close> the records
  carried. The body of the \<open>forEach\<close> of \<open>matchReturnSns\<close> works on the two local
  arrays and on \<open>cache.snToIdMap\<close>. An argument that is \<open>null\<close> or \<open>undefined\<close> is
  \<open>None\<close>.
\<close>

definition match_sn ::
    "(jsval, jsval) jsmap \<Rightarrow> jsstring
      \<Rightarrow> match list \<times> jsstring list \<times> (jsstring, jsval) jsmap
      \<Rightarrow> match list \<times> jsstring list \<times> (jsstring, jsval) jsmap" where
  "match_sn crawledMap sn st =
     (case st of (matchedResults', unmatchedSns', cached) \<Rightarrow>
        if map_has crawledMap (JStr sn)
        then (let returnId = map_get crawledMap (JStr sn)
              in (matchedResults' @ [\<lparr>matched_sn = sn, matched_id = returnId\<rparr>],
                  unmatchedSns',
                  map_set cached sn returnId))
        else (matchedResults', unmatchedSns' @ [sn], cached))"

definition matchReturnSns ::
    "jsstring list option \<Rightarrow> (jsval, jsval) jsmap option \<Rightarrow> matcher_cache
      \<Rightarrow> match_outcome \<times> notice list \<times> matcher_cache" where
  "matchReturnSns userSns crawledMap c =
     (case userSns of
        None \<Rightarrow>
          (\<lparr>matched = [], unmatched = [], matchRate = dnat 0\<rparr>, [ShowError NoReturnSnToMatch], c)
      | Some sns \<Rightarrow>
          if length sns = 0
          then (\<lparr>matched = [], unmatched = [], matchRate = dnat 0\<rparr>,
                [ShowError NoReturnSnToMatch], c)
          else if (case crawledMap of None \<Rightarrow> True | Some m \<Rightarrow> map_size m = 0)
          then (\<lparr>matched = [], unmatched = sns, matchRate = dnat 0\<rparr>,
                [ShowError NoOrderDataCrawlFirst], c)
          else
            (case fold (match_sn (the crawledMap)) sns ([], [], snToIdMap c) of
               (matchedResults', unmatchedSns', cached) \<Rightarrow>
                 (\<lparr>matched = matchedResults',
                   unmatched = unmatchedSns',
                   matchRate = parseFloat_tenths (toFixed1
                     (dmul (ddiv (dnat (length matchedResults')) (dnat (length sns))) (dnat 100)))\<rparr>,
                  [AddLogToUI (MatchedCount (length matchedResults')) Success,
                   AddLogToUI (UnmatchedCount (length unmatchedSns'))
                     (if length unmatchedSns' > 0 then Warning else Info)],
                  c\<lparr>matchedResults := matchedResults',
                    unmatchedSns := unmatchedSns',
                    snToIdMap := cached\<rparr>)))"

definition getReturnId :: "matcher_cache \<Rightarrow> jsstring \<Rightarrow> jsval" where
  "getReturnId c returnSn =
     (let v = map_get (snToIdMap c) returnSn in if truthy v then v else JNull)"

definition clearCache :: "matcher_cache \<Rightarrow> matcher_cache" where
  "clearCache c = c\<lparr>userInput := [], matchedResults := [], unmatchedSns := [], snToIdMap := []\<rparr>"


section \<open>OrderCrawler\<close>

record return_record =
  return_id :: jsval
  return_sn :: jsval

text \<open>
  \<open>filterValidData\<close>: the predicate of its \<open>filter\<close>, the object literal of its
  \<open>map\<close>, and the count it writes to the log panel when something was dropped.
  An argument that is not an array is \<open>None\<close>.
\<close>

definition valid_item :: "jsitem \<Rightarrow> bool" where
  "valid_item item =
     (item_truthy item
      \<and> get_prop item (js ''return_id'') \<noteq> JNull
      \<and> get_prop item (js ''return_id'') \<noteq> JUndefined
      \<and> get_prop item (js ''return_id'') \<noteq> JStr []
      \<and> get_prop item (js ''return_id'') \<noteq> JNum 0
      \<and> get_prop item (js ''return_sn'') \<noteq> JNull
      \<and> get_prop item (js ''return_sn'') \<noteq> JUndefined
      \<and> get_prop item (js ''return_sn'') \<noteq> JStr []
      \<and> get_prop item (js ''return_sn'') \<noteq> JNum 0)"

definition keep_id_sn :: "jsitem \<Rightarrow> return_record" where
  "keep_id_sn item =
     \<lparr>return_id = get_prop item (js ''return_id''), return_sn = get_prop item (js ''return_sn'')\<rparr>"

definition filterValidData :: "jsitem list option \<Rightarrow> return_record list \<times> notice list" where
  "filterValidData dataArray =
     (case dataArray of
        None \<Rightarrow> ([], [])
      | Some items \<Rightarrow>
          let validData = map keep_id_sn (filter valid_item items);
              filteredCount = length items - length validData
          in (validData,
              if filteredCount > 0 then [AddLogToUI (FilteredOutInvalid filteredCount) Warning]
              else []))"

text \<open>
  What the page loop reads of a response. \<open>fetchPageData\<close> rejects on a transport
  error, on a body that does not parse and on an error envelope; otherwise it resolves
  with the parsed body, of which the loop reads \<open>data\<close> (falsy, an array, or
  something else whose \<open>exceptional_case_list\<close> is falsy, an array, or something
  else) and \<open>pagination_info\<close> (\<open>None\<close> when falsy), with \<open>has_more\<close> and
  \<open>cursor?.cursor_offset\<close>.
\<close>

datatype list_field = ListFalsy | ListNotArray | ListArray "jsitem list"

datatype data_field = DataFalsy | DataArray "jsitem list" | DataOther list_field

record pagination =
  has_more :: jsval
  cursor_offset :: jsval

record body =
  data :: data_field
  pagination_info :: "pagination option"

datatype response = Rejected | Resolved body

record date_range =
  lower_value :: int
  upper_value :: int

text \<open>
  \<open>responseData\<close> after the two shape tests, as the array it is when the test
  \<open>responseData && Array.isArray(responseData) && responseData.length > 0\<close> holds,
  and \<open>None\<close> when it fails.
\<close>

fun responseData :: "body \<Rightarrow> jsitem list option" where
  "responseData b =
     (case data b of
        DataFalsy \<Rightarrow> None
      | DataArray items \<Rightarrow> (if length items > 0 then Some items else None)
      | DataOther ListFalsy \<Rightarrow> None
      | DataOther ListNotArray \<Rightarrow> None
      | DataOther (ListArray items) \<Rightarrow> (if length items > 0 then Some items else None))"

definition pageSize :: nat where
  "pageSize = 50"

text \<open>
  The variables of the page loop of \<open>crawlOrders\<close>, and with them the requests sent
  so far, in order (\<open>sent\<close>, which the source does not keep).
\<close>

record loop =
  allData :: "jsitem list"
  currentPage :: nat
  hasMoreData :: bool
  currentOffset :: jsval
  sent :: "(nat \<times> jsval) list"

definition first_round :: loop where
  "first_round =
     \<lparr>allData = [], currentPage = 1, hasMoreData = True, currentOffset = JNum 0, sent = []\<rparr>"

text \<open>
  The body of the loop: it ends in a \<open>break\<close> (on a rejected request, on a page
  without records, on \<open>has_more === false\<close>) or runs to its end. \<open>fetch\<close> is the
  remote service behind \<open>fetchPageData(currentPage, currentOffset, dateRange)\<close>.
\<close>

datatype body_end = Break loop | Next_page loop

definition read_pagination :: "body \<Rightarrow> loop \<Rightarrow> loop" where
  "read_pagination b l =
     (case pagination_info b of
        None \<Rightarrow> l
      | Some p \<Rightarrow>
          l\<lparr>hasMoreData := truthy (has_more p),
            currentOffset := (if truthy (cursor_offset p) then cursor_offset p
                              else JNum (of_nat (currentPage l * pageSize)))\<rparr>)"

definition has_more_is_false :: "body \<Rightarrow> bool" where
  "has_more_is_false b =
     (case pagination_info b of None \<Rightarrow> False | Some p \<Rightarrow> has_more p = JBool False)"

definition page_body ::
    "(nat \<Rightarrow> jsval \<Rightarrow> date_range \<Rightarrow> response) \<Rightarrow> date_range \<Rightarrow> loop \<Rightarrow> body_end" where
  "page_body fetch dateRange l =
     (let l0 = l\<lparr>sent := sent l @ [(currentPage l, currentOffset l)]\<rparr>
      in case fetch (currentPage l) (currentOffset l) dateRange of
           Rejected \<Rightarrow> Break l0
         | Resolved b \<Rightarrow>
             (let l1 = read_pagination b l0
              in case responseData b of
                   None \<Rightarrow> Break l1
                 | Some items \<Rightarrow>
                     (let l2 = l1\<lparr>allData := allData l1 @ items\<rparr>
                      in if has_more_is_false b then Break l2
                         else Next_page (l2\<lparr>currentPage := currentPage l2 + 1\<rparr>))))"

text \<open>
  The \<open>while (hasMoreData)\<close> loop. It has no bound of its own, so it is a partial
  function: \<open>None\<close> is a loop that never ends, \<open>Some l\<close> the variables it ends with.
\<close>

partial_function (option) crawl_pages ::
    "(nat \<Rightarrow> jsval \<Rightarrow> date_range \<Rightarrow> response) \<Rightarrow> date_range \<Rightarrow> loop \<Rightarrow> loop option" where
  "crawl_pages fetch dateRange l =
     (if \<not> hasMoreData l then Some l
      else
        (case page_body fetch dateRange l of
           Break l' \<Rightarrow> Some l'
         | Next_page l' \<Rightarrow> crawl_pages fetch dateRange l'))"

text \<open>
  The variables of the loop after \<open>n\<close> full rounds, where the condition is tested
  for round \<open>n + 1\<close>; \<open>None\<close> if the loop has ended before.
\<close>

primrec round_start ::
    "(nat \<Rightarrow> jsval \<Rightarrow> date_range \<Rightarrow> response) \<Rightarrow> date_range \<Rightarrow> nat \<Rightarrow> loop \<Rightarrow> loop option" where
  "round_start fetch dateRange 0 l = Some l"
| "round_start fetch dateRange (Suc n) l =
     (if \<not> hasMoreData l then None
      else
        (case page_body fetch dateRange l of
           Break l' \<Rightarrow> None
         | Next_page l' \<Rightarrow> round_start fetch dateRange n l'))"

record crawler_cache =
  rawData :: "jsitem list"
  filteredData :: "return_record list"
  crawled_snToIdMap :: "(jsval, jsval) jsmap"
  lastUpdate :: "int option"

datatype crawl_error = InvalidDateRange

text \<open>
  \<open>crawlOrders\<close>, after the headers are there: \<open>dateRange\<close> is what
  \<open>getSelectedDateRange\<close> returned (\<open>None\<close> for \<open>null\<close>, on which the function
  throws) and \<open>now\<close> is \<open>Date.now()\<close>. The index is emptied and rebuilt from the
  filtered records, one \<open>set\<close> each, in order.
\<close>

definition index_record :: "return_record \<Rightarrow> (jsval, jsval) jsmap \<Rightarrow> (jsval, jsval) jsmap" where
  "index_record item m = map_set m (return_sn item) (return_id item)"

definition crawlOrders ::
    "(nat \<Rightarrow> jsval \<Rightarrow> date_range \<Rightarrow> response) \<Rightarrow> date_range option \<Rightarrow> int \<Rightarrow> crawler_cache
      \<Rightarrow> (crawl_error + return_record list \<times> notice list \<times> crawler_cache) option" where
  "crawlOrders fetch dateRange now c =
     (case dateRange of
        None \<Rightarrow> Some (Inl InvalidDateRange)
      | Some selected \<Rightarrow>
          (case crawl_pages fetch selected first_round of
             None \<Rightarrow> None
           | Some l \<Rightarrow>
               (case filterValidData (Some (allData l)) of
                  (filtered, notices) \<Rightarrow>
                    Some (Inr (filtered, notices,
                      c\<lparr>rawData := allData l,
                        filteredData := filtered,
                        lastUpdate := Some now,
                        crawled_snToIdMap := fold index_record filtered []\<rparr>)))))"


section \<open>AddressExtractor\<close>

text \<open>
  \<open>warehouseRules\<close> is the object literal, its properties in the order they are
  written. \<open>Object.entries\<close> does not follow that order for every key: the keys that
  are array indices (canonical decimal numerals below \<open>2 ^ 32 - 1\<close>) come first, in
  ascending numeric order, and the other keys follow in the order of their creation.
\<close>

definition warehouseRules :: "(jsstring \<times> jsstring) list" where
  "warehouseRules =
     [(js ''50121'', js ''BI SMR''),
      (js ''61254'', js ''BI SBY''),
      (js ''14460'', js ''BI JKT'')]"

definition is_digit :: "nat \<Rightarrow> bool" where
  "is_digit c = (48 \<le> c \<and> c \<le> 57)"

definition digits_value :: "jsstring \<Rightarrow> nat" where
  "digits_value k = foldl (\<lambda>n c. 10 * n + (c - 48)) 0 k"

definition array_index :: "jsstring \<Rightarrow> nat option" where
  "array_index k =
     (if k \<noteq> [] \<and> list_all is_digit k \<and> (length k = 1 \<or> hd k \<noteq> 48)
         \<and> digits_value k < 2 ^ 32 - 1
      then Some (digits_value k) else None)"

definition object_entries :: "(jsstring \<times> 'v) list \<Rightarrow> (jsstring \<times> 'v) list" where
  "object_entries ps =
     sort_key (\<lambda>p. the (array_index (fst p))) (filter (\<lambda>p. array_index (fst p) \<noteq> None) ps)
     @ filter (\<lambda>p. array_index (fst p) = None) ps"

text \<open>
  \<open>address.includes(postalCode)\<close> on strings: \<open>postalCode\<close> starts at some position
  of \<open>address\<close>.
\<close>

fun starts_with :: "jsstring \<Rightarrow> jsstring \<Rightarrow> bool" where
  "starts_with s [] = True"
| "starts_with [] (p # ps) = False"
| "starts_with (c # cs) (p # ps) = (c = p \<and> starts_with cs ps)"

fun includes_str :: "jsstring \<Rightarrow> jsstring \<Rightarrow> bool" where
  "includes_str [] p = (p = [])"
| "includes_str (c # cs) p = (starts_with (c # cs) p \<or> includes_str cs p)"

text \<open>
  The literals of the module that are written in Chinese, as their code units:
  \<open>text_unknown\<close> (U+672A U+77E5, "unknown") and \<open>text_other\<close> (U+5176 U+4ED6,
  "other") are the two labels of \<open>identifyWarehouse\<close>; \<open>text_blocked\<close> ("window
  blocked"), \<open>text_timeout\<close> ("extraction timed out") and \<open>text_not_found\<close>
  ("address not found") are the addresses of the results that carry no address.
\<close>

definition text_unknown :: jsstring where
  "text_unknown = [0x672A, 0x77E5]"

definition text_other :: jsstring where
  "text_other = [0x5176, 0x4ED6]"

definition text_blocked :: jsstring where
  "text_blocked = [0x7A97, 0x53E3, 0x88AB, 0x963B, 0x6B62]"

definition text_timeout :: jsstring where
  "text_timeout = [0x63D0, 0x53D6, 0x8D85, 0x65F6]"

definition text_not_found :: jsstring where
  "text_not_found = [0x672A, 0x627E, 0x5230, 0x5730, 0x5740]"

text \<open>
  \<open>identifyWarehouse\<close>: the \<open>for ... of\<close> over the entries returns at the first
  rule whose code the address includes. The argument is whatever the message carried:
  a truthy value that is not a string has no \<open>includes\<close> to call, and the call
  throws a \<open>TypeError\<close>.
\<close>

datatype js_error = TypeError

fun first_rule :: "(jsstring \<times> jsstring) list \<Rightarrow> jsstring \<Rightarrow> jsstring option" where
  "first_rule [] address = None"
| "first_rule ((postalCode, warehouseCode) # rules) address =
     (if includes_str address postalCode then Some warehouseCode else first_rule rules address)"

definition identifyWarehouse :: "jsval \<Rightarrow> js_error + jsstring" where
  "identifyWarehouse address =
     (if \<not> truthy address then Inr text_unknown
      else
        (case address of
           JStr s \<Rightarrow>
             (case first_rule (object_entries warehouseRules) s of
                Some warehouseCode \<Rightarrow> Inr warehouseCode
              | None \<Rightarrow> Inr text_other)
         | _ \<Rightarrow> Inl TypeError))"

record extraction =
  success :: jsval
  result_sn :: jsstring
  result_id :: jsval
  address :: jsval
  warehouse :: jsstring
  timestamp :: jsstring

record extractor_cache =
  cache_results :: "(jsstring, extraction) jsmap"
  cache_processing :: "jsval list"

text \<open>
  One call of \<open>extractAddress(returnSn, returnId)\<close>: the variables of its closure
  and the state of the promise it returned. \<open>settled\<close> is \<open>None\<close> while the promise
  is pending; \<open>resolve\<close> on a promise that is settled does nothing.
\<close>

record call =
  returnSn :: jsstring
  returnId :: jsval
  window_open :: bool
  timer_set :: bool
  listening :: bool
  settled :: "extraction option"

definition resolve :: "extraction \<Rightarrow> call \<Rightarrow> call" where
  "resolve r cl = (case settled cl of None \<Rightarrow> cl\<lparr>settled := Some r\<rparr> | Some r' \<Rightarrow> cl)"

text \<open>
  The body of the promise's executor: \<open>opened\<close> says whether \<open>window.open\<close>
  returned a window, \<open>now\<close> is the time the result is stamped with.
\<close>

definition extractAddress ::
    "jsstring \<Rightarrow> jsval \<Rightarrow> bool \<Rightarrow> jsstring \<Rightarrow> extractor_cache \<Rightarrow> call \<times> extractor_cache" where
  "extractAddress sn rid opened now ex =
     (if \<not> opened
      then (\<lparr>returnSn = sn, returnId = rid, window_open = False, timer_set = False,
             listening = False,
             settled = Some \<lparr>success = JBool False, result_sn = sn, result_id = rid,
                             address = JStr text_blocked, warehouse = text_unknown,
                             timestamp = now\<rparr>\<rparr>,
            ex)
      else (\<lparr>returnSn = sn, returnId = rid, window_open = True, timer_set = True,
             listening = True, settled = None\<rparr>,
            ex\<lparr>cache_processing := set_add (cache_processing ex) rid\<rparr>))"

text \<open>
  The callback of \<open>setTimeout\<close>. A timer that was cleared, or that has fired, does not
  fire.
\<close>

definition on_timeout :: "jsstring \<Rightarrow> call \<times> extractor_cache \<Rightarrow> call \<times> extractor_cache" where
  "on_timeout now st =
     (case st of (cl, ex) \<Rightarrow>
        if \<not> timer_set cl then (cl, ex)
        else if returnId cl \<in> set (cache_processing ex)
        then (resolve \<lparr>success = JBool False, result_sn = returnSn cl, result_id = returnId cl,
                        address = JStr text_timeout, warehouse = text_unknown,
                        timestamp = now\<rparr>
                (cl\<lparr>timer_set := False, window_open := False\<rparr>),
              ex\<lparr>cache_processing := set_delete (cache_processing ex) (returnId cl)\<rparr>)
        else (cl\<lparr>timer_set := False\<rparr>, ex))"

text \<open>
  \<open>messageHandler\<close>, called with \<open>event.data\<close> for as long as it is registered.
  When \<open>identifyWarehouse\<close> throws, the handler ends there, with the timer cleared,
  the id deleted and the listener removed, and the error is not caught by anything.
\<close>

definition messageHandler ::
    "jsitem \<Rightarrow> jsstring \<Rightarrow> call \<times> extractor_cache \<Rightarrow> js_error option \<times> call \<times> extractor_cache" where
  "messageHandler d now st =
     (case st of (cl, ex) \<Rightarrow>
        if \<not> listening cl then (None, cl, ex)
        else if item_truthy d \<and> get_prop d (js ''type'') = JStr (js ''SHOPEE_ADDRESS_EXTRACTED'')
        then
          (if get_prop d (js ''orderId'') = returnId cl
           then
             (let cl1 = cl\<lparr>timer_set := False, listening := False\<rparr>;
                  ex1 = ex\<lparr>cache_processing := set_delete (cache_processing ex) (returnId cl)\<rparr>
              in case identifyWarehouse (get_prop d (js ''address'')) of
                   Inl err \<Rightarrow> (Some err, cl1, ex1)
                 | Inr w \<Rightarrow>
                     (let result =
                            \<lparr>success = get_prop d (js ''success''),
                             result_sn = returnSn cl,
                             result_id = returnId cl,
                             address = (if truthy (get_prop d (js ''address''))
                                        then get_prop d (js ''address'')
                                        else JStr text_not_found),
                             warehouse = w,
                             timestamp = now\<rparr>
                      in (None,
                          resolve result (cl1\<lparr>window_open := False\<rparr>),
                          ex1\<lparr>cache_results := map_set (cache_results ex1) (returnSn cl) result\<rparr>)))
           else (None, cl, ex))
        else (None, cl, ex))"

text \<open>
  \<open>getCachedResult(returnSn)\<close> is \<open>cache.results.get(returnSn) || null\<close>; \<open>None\<close>
  is \<open>null\<close>.
\<close>

definition getCachedResult :: "extractor_cache \<Rightarrow> jsstring \<Rightarrow> extraction option" where
  "getCachedResult ex sn = map_of (cache_results ex) sn"

text \<open>
  \<open>extractAddresses\<close> and the event loop around it. The state is the cache of the
  module, the local \<open>queue\<close>, every call of \<open>extractAddress\<close> made so far (in the
  order they were made, which is also the order their listeners were registered in),
  the local array \<open>processing\<close> (each promise as the number of its call, always below
  the number of calls) and the local array \<open>results\<close>; \<open>uncaught\<close> collects the
  errors that left a handler. \<open>opened n\<close> says whether \<open>window.open\<close> gives
  call \<open>n\<close> a window.
\<close>

record pool =
  cache :: extractor_cache
  queue :: "match list"
  calls :: "call list"
  processing :: "nat list"
  results :: "extraction list"
  uncaught :: "js_error list"

definition maxConcurrent :: nat where
  "maxConcurrent = 3"

text \<open>
  The \<open>while\<close> loop of \<open>processNext\<close>, on the queue as it stands: it starts calls
  while there is an item and fewer than \<open>maxConcurrent\<close> promises in \<open>processing\<close>.
\<close>

fun dispatch :: "(nat \<Rightarrow> bool) \<Rightarrow> jsstring \<Rightarrow> match list \<Rightarrow> pool \<Rightarrow> pool" where
  "dispatch opened now [] p = p\<lparr>queue := []\<rparr>"
| "dispatch opened now (item # rest) p =
     (if length (processing p) < maxConcurrent
      then (case extractAddress (matched_sn item) (matched_id item)
                   (opened (length (calls p))) now (cache p) of
              (cl, ex) \<Rightarrow>
                dispatch opened now rest
                  (p\<lparr>cache := ex,
                     calls := calls p @ [cl],
                     processing := processing p @ [length (calls p)]\<rparr>))
      else p\<lparr>queue := item # rest\<rparr>)"

definition processNext :: "(nat \<Rightarrow> bool) \<Rightarrow> jsstring \<Rightarrow> pool \<Rightarrow> pool" where
  "processNext opened now p = dispatch opened now (queue p) p"

text \<open>
  The callback of \<open>.then\<close> for call \<open>i\<close>, which runs once its promise is settled:
  it pushes the result, takes the promise out of \<open>processing\<close> and calls
  \<open>processNext\<close>.
\<close>

definition on_resolved :: "(nat \<Rightarrow> bool) \<Rightarrow> jsstring \<Rightarrow> nat \<Rightarrow> pool \<Rightarrow> pool" where
  "on_resolved opened now i p =
     (case settled (calls p ! i) of
        None \<Rightarrow> p
      | Some result \<Rightarrow>
          processNext opened now
            (p\<lparr>results := results p @ [result], processing := remove1 i (processing p)\<rparr>))"

text \<open>
  After each task the callbacks of the promises that are settled run, in the order
  the promises were created, until none is left. Each run takes one promise out of
  \<open>processing\<close> and every new call takes an item off the queue, so there are at most
  as many runs as promises and items together.
\<close>

primrec run_callbacks :: "(nat \<Rightarrow> bool) \<Rightarrow> jsstring \<Rightarrow> nat \<Rightarrow> pool \<Rightarrow> pool" where
  "run_callbacks opened now 0 p = p"
| "run_callbacks opened now (Suc n) p =
     (case find (\<lambda>i. settled (calls p ! i) \<noteq> None) (processing p) of
        None \<Rightarrow> p
      | Some i \<Rightarrow> run_callbacks opened now n (on_resolved opened now i p))"

definition run_all_callbacks :: "(nat \<Rightarrow> bool) \<Rightarrow> jsstring \<Rightarrow> pool \<Rightarrow> pool" where
  "run_all_callbacks opened now p =
     run_callbacks opened now (length (processing p) + length (queue p)) p"

text \<open>
  The two kinds of task that reach the module: the timer of call \<open>i\<close> fires, or a
  message event is dispatched, to every listener that is registered when the dispatch
  begins, in the order of registration (an error thrown by one listener does not keep
  the event from the others). The callbacks of the settled promises run each time a
  listener has returned, before the next listener is called, and once more at the end
  of the task. Each task carries the time it runs at.
\<close>

datatype event = TimerFires nat jsstring | MessageArrives jsitem jsstring

definition fire_timer :: "nat \<Rightarrow> jsstring \<Rightarrow> pool \<Rightarrow> pool" where
  "fire_timer i now p =
     (if i < length (calls p)
      then (case on_timeout now (calls p ! i, cache p) of
              (cl, ex) \<Rightarrow> p\<lparr>calls := (calls p)[i := cl], cache := ex\<rparr>)
      else p)"

fun deliver_message ::
    "(nat \<Rightarrow> bool) \<Rightarrow> jsitem \<Rightarrow> jsstring \<Rightarrow> nat list \<Rightarrow> pool \<Rightarrow> pool" where
  "deliver_message opened d now [] p = p"
| "deliver_message opened d now (i # rest) p =
     (case messageHandler d now (calls p ! i, cache p) of
        (err, cl, ex) \<Rightarrow>
          deliver_message opened d now rest
            (run_all_callbacks opened now
               (p\<lparr>calls := (calls p)[i := cl],
                  cache := ex,
                  uncaught := uncaught p @ (case err of None \<Rightarrow> [] | Some e \<Rightarrow> [e])\<rparr>)))"

definition handle_event :: "(nat \<Rightarrow> bool) \<Rightarrow> event \<Rightarrow> pool \<Rightarrow> pool" where
  "handle_event opened ev p =
     (case ev of
        TimerFires i now \<Rightarrow> run_all_callbacks opened now (fire_timer i now p)
      | MessageArrives d now \<Rightarrow>
          run_all_callbacks opened now
            (deliver_message opened d now [0..<length (calls p)] p))"

definition run_events :: "(nat \<Rightarrow> bool) \<Rightarrow> event list \<Rightarrow> pool \<Rightarrow> pool" where
  "run_events opened evs p = fold (handle_event opened) evs p"

text \<open>
  \<open>extractAddresses(matchedResults)\<close> up to its first \<open>await\<close>, and what it has
  returned in a given state: the function returns \<open>results\<close> once the queue is empty
  and every promise it created has had its callback run; until then its own promise
  is pending (\<open>None\<close>).
\<close>

definition extractAddresses ::
    "(nat \<Rightarrow> bool) \<Rightarrow> jsstring \<Rightarrow> match list \<Rightarrow> extractor_cache \<Rightarrow> pool \<times> notice list" where
  "extractAddresses opened now matchedResults' ex =
     (if length matchedResults' = 0
      then (\<lparr>cache = ex, queue = [], calls = [], processing = [], results = [], uncaught = []\<rparr>,
            [ShowError NoOrdersToProcess])
      else (run_all_callbacks opened now
              (processNext opened now
                 \<lparr>cache = ex, queue = matchedResults', calls = [], processing = [],
                  results = [], uncaught = []\<rparr>),
            []))"

definition returned :: "pool \<Rightarrow> extraction list option" where
  "returned p = (if queue p = [] \<and> processing p = [] then Some (results p) else None)"


section \<open>Notions of the specification\<close>

text \<open>
  The format rule of a key, in the words of the specification: upper-case letters and
  digits only, at least 3 and at most 20 of them.
\<close>

definition key_format_ok :: "jsstring \<Rightarrow> bool" where
  "key_format_ok k = (3 \<le> length k \<and> length k \<le> 20 \<and> list_all upper_or_digit k)"





text \<open>A notice that signals an error to the user.\<close>

fun is_error :: "notice \<Rightarrow> bool" where
  "is_error (ShowError m) = True"
| "is_error (AddLogToUI m l) = False"


text \<open>
  The match rate of the specification, \<open>matchedCount / totalInputCount * 100\<close>, as
  the number it is; and rounding to one decimal place: \<open>round_tenths x\<close> is the
  number of tenths nearest to \<open>x\<close>, the larger one when \<open>x\<close> is halfway between
  two.
\<close>

definition rate_percent :: "nat \<Rightarrow> nat \<Rightarrow> rat" where
  "rate_percent matchedCount totalInputCount
     = of_nat matchedCount / of_nat totalInputCount * 100"

definition round_tenths :: "rat \<Rightarrow> nat" where
  "round_tenths x = nat \<lfloor>x * 10 + 1 / 2\<rfloor>"

text \<open>
  Rounding a double to one decimal place: the double nearest to \<open>n / 10\<close>, where
  \<open>n\<close> is the number of tenths nearest to the value of the double.
\<close>

definition round_one_decimal :: "double \<Rightarrow> double" where
  "round_one_decimal x = round53 (round_tenths (dval x)) 10"


text \<open>
  A field that is present, not empty and not zero, in the words of the specification:
  neither \<open>null\<close> nor \<open>undefined\<close>, not the empty string and not the number 0.
\<close>

definition present_nonempty_nonzero :: "jsval \<Rightarrow> bool" where
  "present_nonempty_nonzero v = (v \<noteq> JNull \<and> v \<noteq> JUndefined \<and> v \<noteq> JStr [] \<and> v \<noteq> JNum 0)"

text \<open>
  The responses that end a crawl, in the words of the specification: an error, a page
  without records (none, or an empty array), a page whose \<open>has_more\<close> is \<open>false\<close>.
\<close>

definition stops :: "response \<Rightarrow> bool" where
  "stops r = (case r of Rejected \<Rightarrow> True
              | Resolved b \<Rightarrow> responseData b = None \<or> has_more_is_false b)"


text \<open>
  An address contains a code when the code occurs in it, at any position.
\<close>

definition contains :: "jsstring \<Rightarrow> jsstring \<Rightarrow> bool" where
  "contains s code = (\<exists>before after. s = before @ code @ after)"


text \<open>
  A call that nothing can settle any more: its promise is pending, its timer is not
  set and its listener is not registered. A batch is blocked by such a call for as
  long as its promise is in \<open>processing\<close>.
\<close>

definition dead :: "call \<Rightarrow> bool" where
  "dead cl = (settled cl = None \<and> \<not> timer_set cl \<and> \<not> listening cl)"

definition blocked_by :: "nat \<Rightarrow> pool \<Rightarrow> bool" where
  "blocked_by i p = (i \<in> set (processing p) \<and> i < length (calls p) \<and> dead (calls p ! i))"


section \<open>Sample inputs\<close>

text \<open>The caches of the three modules as they are when the script is loaded.\<close>

definition empty_matcher_cache :: matcher_cache where
  "empty_matcher_cache = \<lparr>userInput = [], matchedResults = [], unmatchedSns = [], snToIdMap = []\<rparr>"

definition empty_crawler_cache :: crawler_cache where
  "empty_crawler_cache = \<lparr>rawData = [], filteredData = [], crawled_snToIdMap = [], lastUpdate = None\<rparr>"

definition empty_extractor_cache :: extractor_cache where
  "empty_extractor_cache = \<lparr>cache_results = [], cache_processing = []\<rparr>"




text \<open>
  Ten keys and an index that holds seven of them, in another order, and one key more.
\<close>

definition ten_keys :: "jsstring list" where
  "ten_keys =
     [js ''K01'', js ''K02'', js ''K03'', js ''K04'', js ''K05'',
      js ''K06'', js ''K07'', js ''K08'', js ''K09'', js ''K10'']"

definition seven_of_ten :: "(jsval, jsval) jsmap" where
  "seven_of_ten =
     [(JStr (js ''K07''), JNum 107), (JStr (js ''K01''), JNum 101), (JStr (js ''K02''), JNum 102),
      (JStr (js ''K03''), JNum 103), (JStr (js ''K04''), JNum 104), (JStr (js ''K05''), JNum 105),
      (JStr (js ''K06''), JNum 106), (JStr (js ''Q99''), JNum 199)]"

text \<open>
  Eighty keys, \<open>K00\<close> to \<open>K79\<close>, and an index that holds the first 23 of them.
\<close>

definition sample_key :: "nat \<Rightarrow> jsstring" where
  "sample_key i = js ''K'' @ [48 + i div 10, 48 + i mod 10]"

definition sample_keys :: "jsstring list" where
  "sample_keys = map sample_key [0..<80]"

definition sample_index :: "(jsval, jsval) jsmap" where
  "sample_index = map (\<lambda>i. (JStr (sample_key i), JNum (of_nat (100 + i)))) [0..<23]"

text \<open>
  Five raw elements of which two are valid, with the same \<open>return_sn\<close>; a service
  that serves them on two pages and then has nothing more.
\<close>

definition sample_items :: "jsitem list" where
  "sample_items =
     [Object [(js ''return_id'', JNum 7), (js ''return_sn'', JStr (js ''ABC123'')),
              (js ''status'', JNum 3)],
      Object [(js ''return_id'', JNum 0), (js ''return_sn'', JStr (js ''ZZZ999''))],
      NonObject JNull,
      Object [(js ''return_id'', JNum 8), (js ''return_sn'', JStr [])],
      Object [(js ''return_sn'', JStr (js ''ABC123'')), (js ''return_id'', JNum 9)]]"

definition sample_range :: date_range where
  "sample_range = \<lparr>lower_value = 1700000000, upper_value = 1702591999\<rparr>"

definition sample_fetch :: "nat \<Rightarrow> jsval \<Rightarrow> date_range \<Rightarrow> response" where
  "sample_fetch page offset dr =
     (if page = 1 \<and> offset = JNum 0
      then Resolved \<lparr>data = DataOther (ListArray (take 3 sample_items)),
                     pagination_info = Some \<lparr>has_more = JBool True, cursor_offset = JNum 50\<rparr>\<rparr>
      else if page = 2 \<and> offset = JNum 50
      then Resolved \<lparr>data = DataOther (ListArray (drop 3 sample_items)),
                     pagination_info = Some \<lparr>has_more = JBool False, cursor_offset = JUndefined\<rparr>\<rparr>
      else Resolved \<lparr>data = DataArray [], pagination_info = None\<rparr>)"

definition second_round :: loop where
  "second_round =
     \<lparr>allData = take 3 sample_items, currentPage = 2, hasMoreData = True,
      currentOffset = JNum 50, sent = [(1, JNum 0)]\<rparr>"

definition last_round :: loop where
  "last_round =
     \<lparr>allData = sample_items, currentPage = 2, hasMoreData = False,
      currentOffset = JNum 100, sent = [(1, JNum 0), (2, JNum 50)]\<rparr>"

text \<open>
  One pair whose timer fires after 30 seconds and whose message arrives one second
  later, or one second earlier.
\<close>

definition address_message :: "jsval \<Rightarrow> jsval \<Rightarrow> jsitem" where
  "address_message orderId addr =
     Object [(js ''type'', JStr (js ''SHOPEE_ADDRESS_EXTRACTED'')), (js ''orderId'', orderId),
             (js ''success'', JBool True), (js ''address'', addr)]"

definition timed_out :: "call \<times> extractor_cache" where
  "timed_out = on_timeout (js ''10:00:30'')
     (extractAddress (js ''ABC123'') (JNum 7) True (js ''10:00:00'') empty_extractor_cache)"

definition late_message :: "js_error option \<times> call \<times> extractor_cache" where
  "late_message = messageHandler (address_message (JNum 7) (JStr (js ''Jl. Raya 50121'')))
     (js ''10:00:31'') timed_out"

definition early_message :: "js_error option \<times> call \<times> extractor_cache" where
  "early_message = messageHandler (address_message (JNum 7) (JStr (js ''Jl. Raya 50121'')))
     (js ''10:00:29'')
     (extractAddress (js ''ABC123'') (JNum 7) True (js ''10:00:00'') empty_extractor_cache)"

text \<open>
  A batch of two pairs with the same key and id (the user entered the key twice)
  whose windows never answer, so that both timers fire; and a batch of two pairs of
  which the first is answered by a message whose address is the number 50121.
\<close>

definition always_opens :: "nat \<Rightarrow> bool" where
  "always_opens n = True"

definition duplicate_pairs :: "match list" where
  "duplicate_pairs =
     [\<lparr>matched_sn = js ''ABC123'', matched_id = JNum 7\<rparr>,
      \<lparr>matched_sn = js ''ABC123'', matched_id = JNum 7\<rparr>]"

definition both_started :: pool where
  "both_started = fst (extractAddresses always_opens (js ''10:00:00'') duplicate_pairs
                         empty_extractor_cache)"

definition both_timers_fired :: pool where
  "both_timers_fired =
     run_events always_opens [TimerFires 0 (js ''10:00:30''), TimerFires 1 (js ''10:00:30'')]
       both_started"

definition waiting_call :: call where
  "waiting_call = \<lparr>returnSn = js ''ABC123'', returnId = JNum 7, window_open = True,
                    timer_set = True, listening = True, settled = None\<rparr>"

definition timeout_result :: extraction where
  "timeout_result = \<lparr>success = JBool False, result_sn = js ''ABC123'', result_id = JNum 7,
                      address = JStr text_timeout, warehouse = text_unknown,
                      timestamp = js ''10:00:30''\<rparr>"

definition two_pairs :: "match list" where
  "two_pairs =
     [\<lparr>matched_sn = js ''ABC123'', matched_id = JNum 7\<rparr>,
      \<lparr>matched_sn = js ''XYZ789'', matched_id = JNum 8\<rparr>]"

definition malformed_delivered :: pool where
  "malformed_delivered =
     run_events always_opens [MessageArrives (address_message (JNum 7) (JNum 50121)) (js ''10:00:05'')]
       (fst (extractAddresses always_opens (js ''10:00:00'') two_pairs empty_extractor_cache))"

text \<open>
  A batch of four pairs of which the first, the second and the fourth have the same
  key and id: three calls are started and the fourth pair waits in the queue when a
  message for that id arrives.
\<close>

definition four_pairs :: "match list" where
  "four_pairs =
     [\<lparr>matched_sn = js ''ABC123'', matched_id = JNum 7\<rparr>,
      \<lparr>matched_sn = js ''ABC123'', matched_id = JNum 7\<rparr>,
      \<lparr>matched_sn = js ''XYZ789'', matched_id = JNum 8\<rparr>,
      \<lparr>matched_sn = js ''ABC123'', matched_id = JNum 7\<rparr>]"

definition three_started :: pool where
  "three_started = fst (extractAddresses always_opens (js ''10:00:00'') four_pairs
                          empty_extractor_cache)"

definition answered_between :: pool where
  "answered_between =
     run_events always_opens
       [MessageArrives (address_message (JNum 7) (JStr (js ''Jl. Raya 50121''))) (js ''10:00:05'')]
       three_started"

definition message_result :: extraction where
  "message_result = \<lparr>success = JBool True, result_sn = js ''ABC123'', result_id = JNum 7,
                       address = JStr (js ''Jl. Raya 50121''), warehouse = js ''BI SMR'',
                       timestamp = js ''10:00:05''\<rparr>"


section \<open>Properties\<close>

subsection \<open>Parsing the keys of the user\<close>




lemma key_format_ok_nonempty: "key_format_ok k \<Longrightarrow> k \<noteq> []"
  by (auto simp: key_format_ok_def)

lemma filter_ok_nonempty:
  "filter key_format_ok (filter (\<lambda>l. length l > 0) ls) = filter key_format_ok ls"
  by (induction ls) (auto dest: key_format_ok_nonempty)




























subsection \<open>The double arithmetic\<close>

text \<open>
  \<open>round53\<close> rounds to the nearest double: for a quotient of positive numbers the
  significand it returns has 53 binary digits (or is \<open>2 ^ 53\<close>, the next power of
  two) and the value is within half a unit in the last place of the quotient.
\<close>

lemma bitlen_bounds: "0 < n \<Longrightarrow> 2 ^ (bitlen n - 1) \<le> n \<and> n < 2 ^ bitlen n"
proof (induction n rule: bitlen.induct)
  case (1 n)
  show ?case
  proof (cases "n div 2 = 0")
    case True
    then have "n = 1" using 1(2) by linarith
    then show ?thesis by (simp add: bitlen.simps)
  next
    case False
    then have h: "2 ^ (bitlen (n div 2) - 1) \<le> n div 2 \<and> n div 2 < 2 ^ bitlen (n div 2)"
      using 1 by simp
    have b: "bitlen n = Suc (bitlen (n div 2))" using 1(2) by (subst bitlen.simps) simp
    have pos: "0 < bitlen (n div 2)" using False by (subst bitlen.simps) simp
    then obtain m where m: "bitlen (n div 2) = Suc m" by (cases "bitlen (n div 2)") auto
    from h m have "2 * 2 ^ m \<le> n" and "n < 2 * 2 ^ Suc m" by auto
    then show ?thesis by (simp add: b m)
  qed
qed

lemma dval_powi: "dval d = of_nat (fst d) * 2 powi (snd d)"
  by (simp add: dval_def power_int_def field_simps)

lemma two_powi_add: "(2::rat) powi a * 2 powi b = 2 powi (a + b)"
  by (simp add: power_int_add)

lemma powi_cond:
  fixes p q :: nat
  assumes "0 < q"
  shows "(if 0 \<le> d then q * 2 ^ nat d \<le> p else q \<le> p * 2 ^ nat (- d))
           \<longleftrightarrow> (2::rat) powi d \<le> of_nat p / of_nat q"
proof (cases "0 \<le> d")
  case True
  have "(q * 2 ^ nat d \<le> p) \<longleftrightarrow> ((of_nat (q * 2 ^ nat d) :: rat) \<le> of_nat p)"
    by (simp only: of_nat_le_iff)
  also have "\<dots> \<longleftrightarrow> ((2::rat) ^ nat d \<le> of_nat p / of_nat q)"
    using assms by (simp add: field_simps)
  finally show ?thesis using True by (simp add: power_int_def)
next
  case False
  have "(q \<le> p * 2 ^ nat (- d)) \<longleftrightarrow> ((of_nat q :: rat) \<le> of_nat (p * 2 ^ nat (- d)))"
    by (simp only: of_nat_le_iff)
  also have "\<dots> \<longleftrightarrow> (1 / (2::rat) ^ nat (- d) \<le> of_nat p / of_nat q)"
    using assms by (simp add: field_simps)
  finally show ?thesis using False by (simp add: power_int_def field_simps)
qed

lemma quotient_between:
  fixes p q :: nat
  assumes "0 < p" "0 < q"
  defines "d \<equiv> int (bitlen p) - int (bitlen q)"
  shows "(2::rat) powi (d - 1) < of_nat p / of_nat q" and "of_nat p / of_nat q < (2::rat) powi (d + 1)"
proof -
  from bitlen_bounds[OF assms(1)] have p: "2 ^ (bitlen p - 1) \<le> p" "p < 2 ^ bitlen p" by auto
  from bitlen_bounds[OF assms(2)] have q: "2 ^ (bitlen q - 1) \<le> q" "q < 2 ^ bitlen q" by auto
  have bp: "0 < bitlen p" using assms(1) by (subst bitlen.simps) simp
  have bq: "0 < bitlen q" using assms(2) by (subst bitlen.simps) simp
  have p1: "(2::rat) powi (int (bitlen p) - 1) \<le> of_nat p"
  proof -
    have "(2::rat) ^ (bitlen p - 1) \<le> of_nat p"
      using p(1) by (metis of_nat_le_iff of_nat_numeral of_nat_power)
    moreover have "int (bitlen p) - 1 = int (bitlen p - 1)" using bp by simp
    ultimately show ?thesis by (simp only: power_int_of_nat)
  qed
  have p2: "of_nat p < (2::rat) powi (int (bitlen p))"
  proof -
    have "of_nat p < (2::rat) ^ bitlen p"
      using p(2) by (metis of_nat_less_iff of_nat_numeral of_nat_power)
    then show ?thesis by (simp only: power_int_of_nat)
  qed
  have q1: "(2::rat) powi (int (bitlen q) - 1) \<le> of_nat q"
  proof -
    have "(2::rat) ^ (bitlen q - 1) \<le> of_nat q"
      using q(1) by (metis of_nat_le_iff of_nat_numeral of_nat_power)
    moreover have "int (bitlen q) - 1 = int (bitlen q - 1)" using bq by simp
    ultimately show ?thesis by (simp only: power_int_of_nat)
  qed
  have q2: "of_nat q < (2::rat) powi (int (bitlen q))"
  proof -
    have "of_nat q < (2::rat) ^ bitlen q"
      using q(2) by (metis of_nat_less_iff of_nat_numeral of_nat_power)
    then show ?thesis by (simp only: power_int_of_nat)
  qed
  have qpos: "(0::rat) < of_nat q" using assms(2) by simp
  have "(2::rat) powi (d - 1) * of_nat q < 2 powi (d - 1) * 2 powi (int (bitlen q))"
    using q2 by (simp add: mult_strict_left_mono)
  also have "\<dots> = 2 powi (int (bitlen p) - 1)"
  proof -
    have "d - 1 + int (bitlen q) = int (bitlen p) - 1" by (simp add: d_def)
    then show ?thesis by (simp only: two_powi_add)
  qed
  also have "\<dots> \<le> of_nat p" by (rule p1)
  finally show "(2::rat) powi (d - 1) < of_nat p / of_nat q"
    using qpos by (simp add: field_simps)
  have "of_nat p < (2::rat) powi (int (bitlen p))" by (rule p2)
  also have "\<dots> = 2 powi (d + 1) * 2 powi (int (bitlen q) - 1)"
  proof -
    have "d + 1 + (int (bitlen q) - 1) = int (bitlen p)" by (simp add: d_def)
    then show ?thesis by (simp only: two_powi_add)
  qed
  also have "\<dots> \<le> 2 powi (d + 1) * of_nat q"
    using q1 by (simp add: mult_left_mono)
  finally show "of_nat p / of_nat q < (2::rat) powi (d + 1)"
    using qpos by (simp add: field_simps)
qed

lemma scaled_between:
  fixes x :: rat
  assumes "2 powi ex \<le> x" and "x < 2 powi (ex + 1)"
  shows "2 powi 52 \<le> x * 2 powi (- (ex - 52))" and "x * 2 powi (- (ex - 52)) < 2 powi 53"
proof -
  have "(2::rat) powi ex * 2 powi (- (ex - 52)) \<le> x * 2 powi (- (ex - 52))"
    using assms(1) by (simp add: mult_right_mono)
  moreover have "(2::rat) powi ex * 2 powi (- (ex - 52)) = 2 powi 52"
  proof -
    have "ex + - (ex - 52) = 52" by simp
    then show ?thesis by (simp only: two_powi_add)
  qed
  ultimately show "2 powi 52 \<le> x * 2 powi (- (ex - 52))" by (simp only:)
  have "x * 2 powi (- (ex - 52)) < (2::rat) powi (ex + 1) * 2 powi (- (ex - 52))"
    using assms(2) by (simp add: mult_strict_right_mono)
  moreover have "(2::rat) powi (ex + 1) * 2 powi (- (ex - 52)) = 2 powi 53"
  proof -
    have "ex + 1 + - (ex - 52) = 53" by simp
    then show ?thesis by (simp only: two_powi_add)
  qed
  ultimately show "x * 2 powi (- (ex - 52)) < 2 powi 53" by (simp only:)
qed

lemma half_even_near:
  fixes num den :: nat
  assumes "0 < den"
  shows "\<bar>(of_nat (if den < 2 * (num mod den) \<or> (2 * (num mod den) = den \<and> odd (num div den))
                    then num div den + 1 else num div den) :: rat)
          - of_nat num / of_nat den\<bar> \<le> 1 / 2"
proof -
  define k0 where "k0 = num div den"
  define r where "r = num mod den"
  have split: "num = k0 * den + r" and r_lt: "r < den"
    using assms by (simp_all add: k0_def r_def)
  have dpos: "(0::rat) < of_nat den" using assms by simp
  have "(of_nat num :: rat) = of_nat k0 * of_nat den + of_nat r"
    by (simp only: split of_nat_add of_nat_mult)
  then have q_eq: "(of_nat num :: rat) / of_nat den = of_nat k0 + of_nat r / of_nat den"
    using dpos by (simp add: field_simps)
  have r1: "(of_nat r :: rat) < of_nat den" using r_lt by simp
  show ?thesis
  proof (cases "den < 2 * r \<or> (2 * r = den \<and> odd k0)")
    case True
    then have "den \<le> 2 * r" by auto
    then have "(of_nat den :: rat) \<le> of_nat (2 * r)" by (simp only: of_nat_le_iff)
    then have h: "(of_nat den :: rat) \<le> 2 * of_nat r" by simp
    have "(of_nat (k0 + 1) :: rat) - of_nat num / of_nat den = 1 - of_nat r / of_nat den"
      by (simp add: q_eq)
    moreover have "0 \<le> 1 - (of_nat r :: rat) / of_nat den" using r1 dpos by simp
    moreover have "1 - (of_nat r :: rat) / of_nat den \<le> 1 / 2"
      using h dpos by (simp add: field_simps)
    ultimately have "\<bar>(of_nat (k0 + 1) :: rat) - of_nat num / of_nat den\<bar> \<le> 1 / 2"
      by (simp only: abs_of_nonneg)
    then show ?thesis using True by (simp only: k0_def r_def if_True)
  next
    case False
    then have "2 * r \<le> den" by auto
    then have "(of_nat (2 * r) :: rat) \<le> of_nat den" by (simp only: of_nat_le_iff)
    then have h: "2 * (of_nat r :: rat) \<le> of_nat den" by simp
    have "(of_nat k0 :: rat) - of_nat num / of_nat den = - (of_nat r / of_nat den)"
      by (simp add: q_eq)
    moreover have "0 \<le> (of_nat r :: rat) / of_nat den" using dpos by simp
    moreover have "(of_nat r :: rat) / of_nat den \<le> 1 / 2"
      using h dpos by (simp add: field_simps)
    ultimately have "\<bar>(of_nat k0 :: rat) - of_nat num / of_nat den\<bar> \<le> 1 / 2"
      by (simp only: abs_minus abs_of_nonneg)
    then show ?thesis using False by (simp only: k0_def r_def if_False)
  qed
qed

lemma exponent_found:
  fixes p q :: nat
  assumes "0 < p" "0 < q"
  defines "d \<equiv> int (bitlen p) - int (bitlen q)"
  defines "ex \<equiv> (if (if 0 \<le> d then q * 2 ^ nat d \<le> p else q \<le> p * 2 ^ nat (- d))
                  then d else d - 1)"
  shows "(2::rat) powi ex \<le> of_nat p / of_nat q" and "of_nat p / of_nat q < (2::rat) powi (ex + 1)"
proof -
  have c: "(if 0 \<le> d then q * 2 ^ nat d \<le> p else q \<le> p * 2 ^ nat (- d))
             \<longleftrightarrow> (2::rat) powi d \<le> of_nat p / of_nat q"
    by (rule powi_cond[OF assms(2)])
  have b1: "(2::rat) powi (d - 1) < of_nat p / of_nat q"
    and b2: "of_nat p / of_nat q < (2::rat) powi (d + 1)"
    unfolding d_def using quotient_between[OF assms(1,2)] by simp_all
  show "(2::rat) powi ex \<le> of_nat p / of_nat q"
  proof (cases "(2::rat) powi d \<le> of_nat p / of_nat q")
    case True
    then have "ex = d" unfolding ex_def using c by (simp only: if_True)
    then show ?thesis using True by (simp only:)
  next
    case False
    then have "ex = d - 1" unfolding ex_def using c by (simp only: if_False)
    then show ?thesis using b1 by (simp only: less_imp_le)
  qed
  show "of_nat p / of_nat q < (2::rat) powi (ex + 1)"
  proof (cases "(2::rat) powi d \<le> of_nat p / of_nat q")
    case True
    then have "ex = d" unfolding ex_def using c by (simp only: if_True)
    then show ?thesis using b2 by (simp only:)
  next
    case False
    then have "ex = d - 1" unfolding ex_def using c by (simp only: if_False)
    then have "ex + 1 = d" by simp
    then show ?thesis using False by (simp only: not_le)
  qed
qed

lemma scaled_quotient:
  fixes p q :: nat
  assumes "0 < q"
  shows "(of_nat (if e < 0 then p * 2 ^ nat (- e) else p) :: rat)
           / of_nat (if e < 0 then q else q * 2 ^ nat e)
         = of_nat p / of_nat q * 2 powi (- e)"
proof (cases "e < 0")
  case True
  then have "(2::rat) powi (- e) = 2 ^ nat (- e)" by (simp add: power_int_def)
  then show ?thesis using True by simp
next
  case False
  then have "(2::rat) powi (- e) = 1 / 2 ^ nat e" by (simp add: power_int_def field_simps)
  then show ?thesis using False by simp
qed

lemma div_between:
  fixes num den :: nat
  assumes "0 < den"
    and "(2::rat) powi 52 \<le> of_nat num / of_nat den"
    and "of_nat num / of_nat den < (2::rat) powi 53"
  shows "2 ^ 52 \<le> num div den" and "num div den < 2 ^ 53"
proof -
  have dpos: "(0::rat) < of_nat den" using assms(1) by simp
  have "(2::rat) ^ 52 \<le> of_nat num / of_nat den" using assms(2) by simp
  then have "(2::rat) ^ 52 * of_nat den \<le> of_nat num"
    using dpos by (simp only: pos_le_divide_eq)
  then have "(of_nat (2 ^ 52 * den) :: rat) \<le> of_nat num" by simp
  then have "2 ^ 52 * den \<le> num" by (simp only: of_nat_le_iff)
  then show "2 ^ 52 \<le> num div den"
    using assms(1) by (simp only: less_eq_div_iff_mult_less_eq)
  have "of_nat num / of_nat den < (2::rat) ^ 53" using assms(3) by simp
  then have "of_nat num < (2::rat) ^ 53 * of_nat den"
    using dpos by (simp only: pos_divide_less_eq)
  then have "(of_nat num :: rat) < of_nat (2 ^ 53 * den)" by simp
  then have "num < 2 ^ 53 * den" by (simp only: of_nat_less_iff)
  then show "num div den < 2 ^ 53"
    using assms(1) by (simp only: div_less_iff_less_mult)
qed

lemma round53_nearest:
  fixes p q :: nat
  assumes "0 < p" "0 < q"
  shows "2 ^ 52 \<le> fst (round53 p q) \<and> fst (round53 p q) \<le> 2 ^ 53
         \<and> \<bar>dval (round53 p q) - of_nat p / of_nat q\<bar> \<le> 2 powi (snd (round53 p q)) / 2"
proof -
  define x :: rat where "x = of_nat p / of_nat q"
  define d where "d = int (bitlen p) - int (bitlen q)"
  define ex where "ex = (if (if 0 \<le> d then q * 2 ^ nat d \<le> p else q \<le> p * 2 ^ nat (- d))
                  then d else d - 1)"
  define e where "e = ex - 52"
  define num where "num = (if e < 0 then p * 2 ^ nat (- e) else p)"
  define den where "den = (if e < 0 then q else q * 2 ^ nat e)"
  define k where "k = (if den < 2 * (num mod den) \<or> (2 * (num mod den) = den \<and> odd (num div den))
                       then num div den + 1 else num div den)"
  have "p \<noteq> 0" using assms(1) by simp
  then have rd: "round53 p q = (k, e)"
    unfolding k_def num_def den_def e_def ex_def d_def round53_def Let_def
    by (simp only: if_False)
  have lo: "2 powi ex \<le> x" and hi: "x < 2 powi (ex + 1)"
    unfolding x_def ex_def d_def using exponent_found[OF assms] by (simp_all only:)
  have den_pos: "0 < den" using assms(2) by (simp add: den_def)
  have s: "of_nat num / of_nat den = x * 2 powi (- e)"
    unfolding num_def den_def x_def by (rule scaled_quotient[OF assms(2)])
  have s_lo: "(2::rat) powi 52 \<le> of_nat num / of_nat den"
    and s_hi: "of_nat num / of_nat den < (2::rat) powi 53"
    unfolding s e_def using scaled_between[OF lo hi] by (simp_all only:)
  have k0_lo: "2 ^ 52 \<le> num div den" and k0_hi: "num div den < 2 ^ 53"
    using div_between[OF den_pos s_lo s_hi] by (simp_all only:)
  have near: "\<bar>(of_nat k :: rat) - of_nat num / of_nat den\<bar> \<le> 1 / 2"
    unfolding k_def by (rule half_even_near[OF den_pos])
  have "(2::rat) powi (- e) * 2 powi e = 1"
    by (simp only: two_powi_add) simp
  then have x_eq: "x = of_nat num / of_nat den * 2 powi e"
    by (simp only: s mult.assoc mult_1_right)
  have "dval (k, e) - x = (of_nat k - of_nat num / of_nat den) * 2 powi e"
    by (simp only: dval_powi fst_conv snd_conv x_eq left_diff_distrib)
  then have "\<bar>dval (k, e) - x\<bar> = \<bar>of_nat k - of_nat num / of_nat den\<bar> * 2 powi e"
    by (simp add: abs_mult)
  also have "\<dots> \<le> 1 / 2 * 2 powi e"
    using near by (rule mult_right_mono) simp
  finally have err: "\<bar>dval (k, e) - x\<bar> \<le> 2 powi e / 2" by simp
  have "2 ^ 52 \<le> k" "k \<le> 2 ^ 53" using k0_lo k0_hi unfolding k_def by auto
  then show ?thesis using err unfolding rd x_def by (simp only: fst_conv snd_conv simp_thms)
qed

text \<open>
  The error of a rounding relative to its result, and the product
  \<open>matched / total * 100\<close> as the source computes it, against the ratio itself.
\<close>

lemma round53_relative:
  fixes p q :: nat
  assumes "0 < p" "0 < q"
  shows "\<bar>dval (round53 p q) - of_nat p / of_nat q\<bar> \<le> dval (round53 p q) / 2 ^ 53"
    and "dval (round53 p q) \<le> 2 * (of_nat p / of_nat q)"
proof -
  define K where "K = fst (round53 p q)"
  define e where "e = snd (round53 p q)"
  define V where "V = dval (round53 p q)"
  define x :: rat where "x = of_nat p / of_nat q"
  from round53_nearest[OF assms] have K: "2 ^ 52 \<le> K"
    and err: "\<bar>V - x\<bar> \<le> 2 powi e / 2"
    by (simp_all add: K_def e_def V_def x_def)
  have V: "V = of_nat K * 2 powi e" by (simp add: V_def dval_powi K_def e_def)
  have pos: "(0::rat) < 2 powi e" by simp
  have "(2::rat) ^ 52 \<le> of_nat K" using K by (metis of_nat_le_iff of_nat_numeral of_nat_power)
  then have "(2::rat) ^ 52 * 2 powi e \<le> of_nat K * 2 powi e"
    using pos by (simp only: mult_le_cancel_right_pos)
  then have h: "(2::rat) ^ 52 * 2 powi e \<le> V" by (simp only: V)
  have "(2::rat) powi e / 2 = (2 ^ 52 * 2 powi e) / 2 ^ 53" by simp
  also have "\<dots> \<le> V / 2 ^ 53" using h by (simp add: divide_right_mono)
  finally have half: "(2::rat) powi e / 2 \<le> V / 2 ^ 53" .
  with err show r: "\<bar>V - x\<bar> \<le> V / 2 ^ 53" by linarith
  have "0 \<le> V" using V by simp
  then have "V / 2 ^ 53 \<le> V / 2" by (simp add: field_simps)
  with r show "V \<le> 2 * x" by linarith
qed

lemma ddiv_dnat: "ddiv (dnat m) (dnat n) = round53 m n"
  by (simp add: ddiv_def dnat_def split: prod.splits)

lemma dval_dmul_dnat:
  "dval (dmul a (dnat c)) = dval (round53 (fst a * c) 1) * 2 powi (snd a)"
proof -
  obtain k e where r: "round53 (fst a * c) 1 = (k, e)" by (cases "round53 (fst a * c) 1")
  have "dmul a (dnat c) = (k, e + snd a + 0)"
    by (simp only: dmul_def dnat_def fst_conv snd_conv r prod.case)
  then have "dval (dmul a (dnat c)) = of_nat k * 2 powi (e + snd a)"
    by (simp add: dval_powi)
  also have "\<dots> = of_nat k * (2 powi e * 2 powi (snd a))" by (simp only: two_powi_add)
  also have "\<dots> = dval (k, e) * 2 powi (snd a)" by (simp add: dval_powi)
  finally show ?thesis by (simp only: r)
qed

lemma round53_zero: "round53 0 q = (0, 0)"
  by (simp add: round53_def)

lemma rate_error:
  fixes m n :: nat
  assumes "0 < n" and "m \<le> n"
  shows "\<bar>dval (dmul (ddiv (dnat m) (dnat n)) (dnat 100)) * 10 - of_nat (1000 * m) / of_nat n\<bar>
           \<le> 6000 / 2 ^ 53"
    and "0 \<le> dval (dmul (ddiv (dnat m) (dnat n)) (dnat 100))"
proof -
  define a where "a = round53 m n"
  define A where "A = dval a"
  define B where "B = dval (dmul (ddiv (dnat m) (dnat n)) (dnat 100))"
  define x :: rat where "x = of_nat m / of_nat n"
  have B: "B = dval (round53 (fst a * 100) 1) * 2 powi (snd a)"
    by (simp only: B_def ddiv_dnat dval_dmul_dnat a_def)
  have x1: "x \<le> 1" and x0: "0 \<le> x" using assms by (simp_all add: x_def)
  have "\<bar>B - 100 * x\<bar> \<le> 600 / 2 ^ 53 \<and> 0 \<le> B"
  proof (cases "m = 0")
    case True
    then have "a = (0, 0)" by (simp add: a_def round53_zero)
    then have "B = 0" by (simp add: B round53_zero dval_def)
    then show ?thesis using True by (simp add: x_def)
  next
    case False
    then have mpos: "0 < m" by simp
    from round53_relative[OF mpos assms(1)]
    have A1: "\<bar>A - x\<bar> \<le> A / 2 ^ 53" and A2: "A \<le> 2 * x" by (simp_all add: A_def a_def x_def)
    from round53_nearest[OF mpos assms(1)] have "2 ^ 52 \<le> fst a" by (simp add: a_def)
    then have kpos: "0 < fst a * 100" by simp
    define B' where "B' = dval (round53 (fst a * 100) 1)"
    from round53_relative[OF kpos, of 1]
    have B1: "\<bar>B' - of_nat (fst a) * 100\<bar> \<le> B' / 2 ^ 53" and B2: "B' \<le> 2 * (of_nat (fst a) * 100)"
      by (simp_all add: B'_def)
    have pos: "(0::rat) < 2 powi (snd a)" by simp
    have Aeq: "A = of_nat (fst a) * 2 powi (snd a)" by (simp add: A_def dval_powi)
    have Beq: "B = B' * 2 powi (snd a)" by (simp add: B B'_def)
    have "B - 100 * A = (B' - of_nat (fst a) * 100) * 2 powi (snd a)"
      by (simp add: Beq Aeq algebra_simps)
    then have "\<bar>B - 100 * A\<bar> = \<bar>B' - of_nat (fst a) * 100\<bar> * 2 powi (snd a)"
      by (simp add: abs_mult)
    also have "\<dots> \<le> B' / 2 ^ 53 * 2 powi (snd a)"
      using B1 pos by (simp only: mult_le_cancel_right_pos)
    also have "\<dots> = B / 2 ^ 53" by (simp add: Beq)
    finally have C1: "\<bar>B - 100 * A\<bar> \<le> B / 2 ^ 53" .
    have "B' * 2 powi (snd a) \<le> 2 * (of_nat (fst a) * 100) * 2 powi (snd a)"
      using B2 pos by (simp only: mult_le_cancel_right_pos)
    then have C2: "B \<le> 200 * A" by (simp add: Beq Aeq algebra_simps)
    have A0: "0 \<le> A" by (simp add: Aeq)
    have "A \<le> 2" using A2 x1 by linarith
    then have Ab: "A / 2 ^ 53 \<le> 2 / 2 ^ 53" by (simp add: divide_right_mono)
    have "B \<le> 400" using C2 \<open>A \<le> 2\<close> by linarith
    then have Bb: "B / 2 ^ 53 \<le> 400 / 2 ^ 53" by (simp add: divide_right_mono)
    have "0 \<le> B'" using B'_def dval_powi by simp
    then have B0: "0 \<le> B" by (simp add: Beq)
    have "\<bar>B - 100 * x\<bar> = \<bar>(B - 100 * A) + 100 * (A - x)\<bar>" by (simp add: algebra_simps)
    also have "\<dots> \<le> \<bar>B - 100 * A\<bar> + \<bar>100 * (A - x)\<bar>" by (rule abs_triangle_ineq)
    also have "\<dots> = \<bar>B - 100 * A\<bar> + 100 * \<bar>A - x\<bar>" by (simp only: abs_mult abs_numeral)
    also have "\<dots> \<le> 400 / 2 ^ 53 + 100 * (2 / 2 ^ 53)"
    proof -
      have c1: "\<bar>B - 100 * A\<bar> \<le> 400 / 2 ^ 53" using C1 Bb by (rule order_trans)
      have c2: "\<bar>A - x\<bar> \<le> 2 / 2 ^ 53" using A1 Ab by (rule order_trans)
      have c3: "100 * \<bar>A - x\<bar> \<le> 100 * (2 / 2 ^ 53)" using c2 by (rule mult_left_mono) simp
      show ?thesis using c1 c3 by (rule add_mono)
    qed
    finally show ?thesis using B0 by simp
  qed
  then have e: "\<bar>B - 100 * x\<bar> \<le> 600 / 2 ^ 53" and B0: "0 \<le> B" by simp_all
  have "B * 10 - of_nat (1000 * m) / of_nat n = 10 * (B - 100 * x)"
    by (simp add: x_def algebra_simps)
  then have "\<bar>B * 10 - of_nat (1000 * m) / of_nat n\<bar> = \<bar>10 * (B - 100 * x)\<bar>"
    by (simp only:)
  also have "\<dots> = 10 * \<bar>B - 100 * x\<bar>" by (simp only: abs_mult abs_numeral)
  also have "\<dots> \<le> 10 * (600 / 2 ^ 53)" using e by (rule mult_left_mono) simp
  also have "\<dots> = 6000 / 2 ^ 53" by simp
  finally show "\<bar>dval (dmul (ddiv (dnat m) (dnat n)) (dnat 100)) * 10 - of_nat (1000 * m) / of_nat n\<bar>
           \<le> 6000 / 2 ^ 53"
    unfolding B_def .
  show "0 \<le> dval (dmul (ddiv (dnat m) (dnat n)) (dnat 100))" using B0 by (simp add: B_def)
qed


subsection \<open>Matching keys against the index\<close>

lemma fold_match_sn:
  "fold (match_sn m) sns (ms, us, cm) =
     (ms @ map (\<lambda>k. \<lparr>matched_sn = k, matched_id = map_get m (JStr k)\<rparr>)
             (filter (\<lambda>k. map_has m (JStr k)) sns),
      us @ filter (\<lambda>k. \<not> map_has m (JStr k)) sns,
      fold (\<lambda>k cm. map_set cm k (map_get m (JStr k))) (filter (\<lambda>k. map_has m (JStr k)) sns) cm)"
  by (induction sns arbitrary: ms us cm) (simp_all add: match_sn_def Let_def)

lemma map_has_iff: "map_has m k \<longleftrightarrow> k \<in> fst ` set m"
  by (simp add: map_has_def map_of_eq_None_iff)

lemma map_get_the: "map_has m k \<Longrightarrow> map_get m k = the (map_of m k)"
  by (auto simp: map_has_def map_get_def)

lemma map_of_fold_set:
  "map_of (fold (\<lambda>k cm. map_set cm k (f k)) ks cm) x =
     (if x \<in> set ks then Some (f x) else map_of cm x)"
  by (induction ks arbitrary: cm) (auto simp: map_set_def update_conv')

lemma floor_nat_plus_half: "\<lfloor>(of_nat n :: rat) + 1 / 2\<rfloor> = int n"
  by linarith

lemma toFixed1_floor: "toFixed1 x = nat \<lfloor>dval x * 10 + 1 / 2\<rfloor>"
proof (cases "0 \<le> snd x")
  case True
  have "dval x * 10 = of_nat (10 * fst x * 2 ^ nat (snd x))"
    using True by (simp add: dval_def)
  then have "\<lfloor>dval x * 10 + 1 / 2\<rfloor> = int (10 * fst x * 2 ^ nat (snd x))"
    by (simp only: floor_nat_plus_half)
  then show ?thesis using True by (simp only: toFixed1_def nat_int if_True)
next
  case False
  define k where "k = nat (- snd x)"
  have "dval x * 10 + 1 / 2 = of_nat (20 * fst x + 2 ^ k) / of_nat (2 * 2 ^ k)"
    using False by (simp add: dval_def k_def field_simps)
  then have "\<lfloor>dval x * 10 + 1 / 2\<rfloor> = int ((20 * fst x + 2 ^ k) div (2 * 2 ^ k))"
    by (simp only: floor_divide_of_nat_eq)
  then show ?thesis using False by (simp only: toFixed1_def nat_int if_False k_def)
qed

lemma matchReturnSns_main:
  assumes "sns \<noteq> []" and "m \<noteq> []"
  shows "matchReturnSns (Some sns) (Some m) c =
     (\<lparr>matched = map (\<lambda>k. \<lparr>matched_sn = k, matched_id = map_get m (JStr k)\<rparr>)
                      (filter (\<lambda>k. map_has m (JStr k)) sns),
       unmatched = filter (\<lambda>k. \<not> map_has m (JStr k)) sns,
       matchRate = parseFloat_tenths (toFixed1
          (dmul (ddiv (dnat (length (filter (\<lambda>k. map_has m (JStr k)) sns))) (dnat (length sns)))
                (dnat 100)))\<rparr>,
      [AddLogToUI (MatchedCount (length (filter (\<lambda>k. map_has m (JStr k)) sns))) Success,
       AddLogToUI (UnmatchedCount (length (filter (\<lambda>k. \<not> map_has m (JStr k)) sns)))
         (if length (filter (\<lambda>k. \<not> map_has m (JStr k)) sns) > 0 then Warning else Info)],
      c\<lparr>matchedResults := map (\<lambda>k. \<lparr>matched_sn = k, matched_id = map_get m (JStr k)\<rparr>)
                      (filter (\<lambda>k. map_has m (JStr k)) sns),
        unmatchedSns := filter (\<lambda>k. \<not> map_has m (JStr k)) sns,
        snToIdMap := fold (\<lambda>k cm. map_set cm k (map_get m (JStr k)))
                       (filter (\<lambda>k. map_has m (JStr k)) sns) (snToIdMap c)\<rparr>)"
  using assms by (simp add: matchReturnSns_def map_size_def fold_match_sn)

lemmas double_eval =
  dval_def parseFloat_tenths_def toFixed1_def dmul_def ddiv_def dnat_def round53_def
  bitlen.simps Let_def

text \<open>
  The double arithmetic on some values: the double nearest to \<open>1 / 10\<close>; 7 of 10
  is \<open>70.0\<close>; 1 of 16 is \<open>6.25\<close> exactly and goes up to \<open>6.3\<close>; 23 of 80
  is \<open>28.749999999999996\<close> as a double, not \<open>28.75\<close>, and goes to \<open>28.7\<close>.
\<close>

lemma double_examples:
  "round53 1 10 = (7205759403792794, - 56)"
  "toFixed1 (dmul (ddiv (dnat 7) (dnat 10)) (dnat 100)) = 700"
  "toFixed1 (dmul (ddiv (dnat 1) (dnat 16)) (dnat 100)) = 63"
  "toFixed1 (dmul (ddiv (dnat 23) (dnat 80)) (dnat 100)) = 287"
  by (simp_all add: double_eval)

text \<open>
  The tenths that \<open>toFixed(1)\<close> gives for the double product are nearest to the
  ratio itself: the product is within \<open>6000 / 2 ^ 53\<close> of ten times the ratio, and
  a ratio of two lengths that is not halfway between two tenths is further than that
  from the halfway points.
\<close>

lemma grid_gap:
  fixes P Q n :: nat
  assumes "0 < n" and "(of_nat P :: rat) / (2 * of_nat n) < of_nat Q / (2 * of_nat n)"
  shows "(of_nat P :: rat) / (2 * of_nat n) + 1 / (2 * of_nat n) \<le> of_nat Q / (2 * of_nat n)"
proof -
  have pos: "(0::rat) < 2 * of_nat n" using assms(1) by simp
  from assms(2) have "(of_nat P :: rat) < of_nat Q"
    using pos by (simp only: divide_less_cancel)
  then have "P < Q" by (simp only: of_nat_less_iff)
  then have "P + 1 \<le> Q" by simp
  then have "(of_nat (P + 1) :: rat) \<le> of_nat Q" by (simp only: of_nat_le_iff)
  then have "(of_nat P + 1 :: rat) \<le> of_nat Q" by simp
  then have "(of_nat P + 1 :: rat) / (2 * of_nat n) \<le> of_nat Q / (2 * of_nat n)"
    using pos by (simp only: divide_right_mono less_imp_le)
  then show ?thesis by (simp only: add_divide_distrib)
qed

lemma tenths_near:
  fixes b :: rat and m n k :: nat
  assumes n: "0 < n" "n < 2 ^ 32"
    and b: "\<bar>b - of_nat (1000 * m) / of_nat n\<bar> \<le> 6000 / 2 ^ 53" "0 \<le> b"
    and k: "k = nat \<lfloor>b + 1 / 2\<rfloor>"
  shows "\<bar>(of_nat k :: rat) - of_nat (1000 * m) / of_nat n\<bar> \<le> 1 / 2"
proof -
  define y :: rat where "y = of_nat (1000 * m) / of_nat n"
  define g :: rat where "g = 1 / (2 * of_nat n)"
  define dl :: rat where "dl = 6000 / 2 ^ 53"
  have npos: "(0::rat) < of_nat n" using n(1) by simp
  have "0 \<le> \<lfloor>b + 1 / 2\<rfloor>" using b(2) by simp
  then have kk: "(of_nat k :: rat) = of_int \<lfloor>b + 1 / 2\<rfloor>" by (simp add: k)
  have k1: "of_nat k \<le> b + 1 / 2" unfolding kk by (rule of_int_floor_le)
  have k2: "b + 1 / 2 < of_nat k + 1" unfolding kk using floor_correct[of "b + 1 / 2"] by simp
  have "\<bar>b - y\<bar> \<le> dl" unfolding y_def dl_def by (rule b(1))
  then have b1: "b - y \<le> dl" and b2: "y - b \<le> dl" by linarith+
  have "(of_nat n :: rat) < 2 ^ 32" using n(2) by (metis of_nat_less_iff of_nat_numeral of_nat_power)
  then have "2 * (of_nat n :: rat) < 2 ^ 33" by simp
  then have g1: "1 / (2 ^ 33 :: rat) < 1 / (2 * of_nat n)" using npos by (simp add: frac_less2)
  have g2: "dl \<le> 1 / 2 ^ 33" by (simp add: dl_def)
  have dg: "dl < g" unfolding g_def using g2 g1 by (rule le_less_trans)
  have h1: "y = of_nat (2000 * m) / (2 * of_nat n)" using npos by (simp add: y_def)
  have h2: "of_nat k + 1 / 2 = (of_nat ((2 * k + 1) * n) :: rat) / (2 * of_nat n)"
    using npos by (simp add: field_simps)
  have h3: "y + 1 / 2 = of_nat (2000 * m + n) / (2 * of_nat n)"
    using npos by (simp add: y_def field_simps)
  have h4: "of_nat k = (of_nat (2 * k * n) :: rat) / (2 * of_nat n)"
    using npos by (simp add: field_simps)
  have up: "y \<le> of_nat k + 1 / 2"
  proof (rule ccontr)
    assume "\<not> y \<le> of_nat k + 1 / 2"
    then have "(of_nat ((2 * k + 1) * n) :: rat) / (2 * of_nat n) < of_nat (2000 * m) / (2 * of_nat n)"
      by (simp only: h1[symmetric] h2[symmetric] not_le)
    from grid_gap[OF n(1) this] have "of_nat k + 1 / 2 + g \<le> y"
      by (simp only: h1[symmetric] h2[symmetric] g_def)
    then show False using k2 b2 dg by linarith
  qed
  have lo: "of_nat k \<le> y + 1 / 2"
  proof (rule ccontr)
    assume "\<not> of_nat k \<le> y + 1 / 2"
    then have "(of_nat (2000 * m + n) :: rat) / (2 * of_nat n) < of_nat (2 * k * n) / (2 * of_nat n)"
      by (simp only: h3[symmetric] h4[symmetric] not_le)
    from grid_gap[OF n(1) this] have "y + 1 / 2 + g \<le> of_nat k"
      by (simp only: h3[symmetric] h4[symmetric] g_def)
    then show False using k1 b1 dg by linarith
  qed
  have "\<bar>of_nat k - y\<bar> \<le> 1 / 2" using up lo by linarith
  then show ?thesis by (simp only: y_def)
qed

lemma nearest_or_tie:
  fixes y :: rat and k :: nat
  assumes "\<bar>of_nat k - y\<bar> \<le> 1 / 2"
  shows "k = nat \<lfloor>y + 1 / 2\<rfloor> \<or> of_nat k + 1 / 2 = y"
proof -
  define j where "j = \<lfloor>y + 1 / 2\<rfloor>"
  have a1: "of_nat k \<le> y + 1 / 2" and a2: "y \<le> of_nat k + 1 / 2"
    using assms by linarith+
  have "of_int (int k) \<le> y + 1 / 2" using a1 by simp
  then have kj: "int k \<le> j" unfolding j_def by (simp only: le_floor_iff)
  have "of_int j \<le> y + 1 / 2" unfolding j_def by (rule of_int_floor_le)
  then have "(of_int j :: rat) \<le> of_int (int k + 1)" using a2 by simp
  then have jk: "j \<le> int k + 1" by (simp only: of_int_le_iff)
  show ?thesis
  proof (cases "j = int k")
    case True
    then show ?thesis by (simp add: j_def[symmetric])
  next
    case False
    then have "j = int k + 1" using kj jk by simp
    then have "(of_int (int k + 1) :: rat) \<le> y + 1 / 2"
      using \<open>of_int j \<le> y + 1 / 2\<close> by simp
    then have "of_nat k + 1 / 2 \<le> y" by simp
    then show ?thesis using a2 by simp
  qed
qed

lemma parseFloat_near:
  assumes "k \<le> 1000"
  shows "\<bar>dval (parseFloat_tenths k) - of_nat k / 10\<bar> \<le> 1 / 2 ^ 45"
proof (cases "k = 0")
  case True
  then show ?thesis by (simp add: parseFloat_tenths_def round53_zero dval_def)
next
  case False
  then have kpos: "0 < k" by simp
  define V where "V = dval (round53 k 10)"
  from round53_relative[OF kpos, of 10]
  have e: "\<bar>V - of_nat k / 10\<bar> \<le> V / 2 ^ 53" and u: "V \<le> 2 * (of_nat k / 10)"
    by (simp_all add: V_def)
  have "(of_nat k :: rat) \<le> 1000" using assms by (metis of_nat_le_iff of_nat_numeral)
  then have "V \<le> 200" using u by linarith
  then have "V / 2 ^ 53 \<le> 200 / 2 ^ 53" by (simp add: divide_right_mono)
  also have "\<dots> \<le> 1 / 2 ^ 45" by simp
  finally have "V / 2 ^ 53 \<le> 1 / 2 ^ 45" .
  with e have "\<bar>V - of_nat k / 10\<bar> \<le> 1 / 2 ^ 45" by (rule order_trans)
  then show ?thesis by (simp only: V_def parseFloat_tenths_def)
qed

lemma rate_nearest:
  fixes m n :: nat
  assumes "0 < n" and "m \<le> n" and "n < 2 ^ 32"
  defines "k \<equiv> toFixed1 (dmul (ddiv (dnat m) (dnat n)) (dnat 100))"
  shows "\<bar>of_nat k / 10 - rate_percent m n\<bar> \<le> 1 / 20"
    and "k = round_tenths (rate_percent m n) \<or> of_nat k / 10 + 1 / 20 = rate_percent m n"
    and "k \<le> 1000"
proof -
  define b where "b = dval (dmul (ddiv (dnat m) (dnat n)) (dnat 100)) * 10"
  define y :: rat where "y = of_nat (1000 * m) / of_nat n"
  have kb: "k = nat \<lfloor>b + 1 / 2\<rfloor>" by (simp only: k_def toFixed1_floor b_def)
  from rate_error[OF assms(1,2)]
  have e: "\<bar>b - of_nat (1000 * m) / of_nat n\<bar> \<le> 6000 / 2 ^ 53" and b0: "0 \<le> b"
    by (simp_all add: b_def)
  from tenths_near[OF assms(1,3) e b0 kb] have near: "\<bar>of_nat k - y\<bar> \<le> 1 / 2" by (simp only: y_def)
  have yx: "y = rate_percent m n * 10" by (simp add: y_def rate_percent_def)
  show "\<bar>of_nat k / 10 - rate_percent m n\<bar> \<le> 1 / 20" using near yx by linarith
  from nearest_or_tie[OF near]
  show "k = round_tenths (rate_percent m n) \<or> of_nat k / 10 + 1 / 20 = rate_percent m n"
    by (auto simp: round_tenths_def yx)
  have "(of_nat m :: rat) \<le> of_nat n" using assms(2) by simp
  then have "y \<le> 1000" using assms(1) by (simp add: y_def field_simps)
  then have "(of_nat k :: rat) \<le> 1000 + 1 / 2" using near by linarith
  then have "(of_nat k :: rat) < of_nat 1001" by simp
  then have "k < 1001" by (simp only: of_nat_less_iff)
  then show "k \<le> 1000" by simp
qed

text \<open>
  23 of the 80 sample keys are matched: the ratio is \<open>28.75\<close>, the double product
  is below it, and the rate is \<open>28.7\<close>.
\<close>

lemma sample_key_inj: "i < 100 \<Longrightarrow> j < 100 \<Longrightarrow> sample_key i = sample_key j \<Longrightarrow> i = j"
proof -
  assume "i < 100" "j < 100" "sample_key i = sample_key j"
  then have "i div 10 = j div 10" "i mod 10 = j mod 10" by (simp_all add: sample_key_def)
  then show "i = j" by (metis div_mult_mod_eq)
qed

lemma sample_has: "i < 80 \<Longrightarrow> map_has sample_index (JStr (sample_key i)) \<longleftrightarrow> i < 23"
proof -
  assume i: "i < 80"
  have s: "fst ` set sample_index = (\<lambda>j. JStr (sample_key j)) ` {0..<23}"
    by (simp add: sample_index_def image_image)
  show ?thesis
  proof
    assume "map_has sample_index (JStr (sample_key i))"
    then obtain j where j: "j < 23" "sample_key i = sample_key j"
      unfolding map_has_iff s by auto
    then have "i = j" using i sample_key_inj[of i j] by simp
    then show "i < 23" using j(1) by simp
  next
    assume "i < 23"
    then show "map_has sample_index (JStr (sample_key i))"
      unfolding map_has_iff s by simp
  qed
qed

lemma sample_matched:
  "filter (\<lambda>k. map_has sample_index (JStr k)) sample_keys = map sample_key [0..<23]"
proof -
  have "filter (\<lambda>k. map_has sample_index (JStr k)) sample_keys
          = map sample_key (filter (\<lambda>i. map_has sample_index (JStr (sample_key i))) [0..<80])"
    by (simp add: sample_keys_def filter_map comp_def)
  also have "filter (\<lambda>i. map_has sample_index (JStr (sample_key i))) [0..<80]
          = filter (\<lambda>i. i < 23) [0..<80]"
    by (rule filter_cong) (simp_all add: sample_has)
  also have "filter (\<lambda>i. i < 23) [0..<80] = [0..<23]"
  proof -
    have "[0..<80] = [0..<23] @ [23..<80]" by (simp add: upt_add_eq_append[of 0 23 57, simplified])
    then show ?thesis by (simp add: filter_empty_conv)
  qed
  finally show ?thesis .
qed

lemma sample_rate:
  "matchRate (fst (matchReturnSns (Some sample_keys) (Some sample_index) empty_matcher_cache))
     = parseFloat_tenths 287"
proof -
  have n1: "sample_keys \<noteq> []" by (simp add: sample_keys_def)
  have n2: "sample_index \<noteq> []" by (simp add: sample_index_def)
  have l: "length sample_keys = 80" by (simp add: sample_keys_def)
  have t: "toFixed1 (dmul (ddiv (dnat 23) (dnat 80)) (dnat 100)) = 287"
    by (simp add: double_eval)
  show ?thesis
    unfolding matchReturnSns_main[OF n1 n2] sample_matched l by (simp add: t)
qed

lemma tenths_differ: "parseFloat_tenths 287 \<noteq> parseFloat_tenths 288"
  by (simp add: double_eval)

lemma sample_exact: "rate_percent 23 80 = 115 / 4" "round_tenths (rate_percent 23 80) = 288"
   by (simp_all add: rate_percent_def round_tenths_def)

text \<open>
  C5. For a key list and an index that are not empty, \<open>matched\<close> is the input keys
  that are keys of the index, each with the id the index maps it to, and \<open>unmatched\<close>
  is the input keys that are not, both in the order of the input. The match rate is
  the double product \<open>matched / total * 100\<close> of the source rounded to one decimal
  place. For a key list shorter than \<open>2 ^ 32\<close>, as every array is, it is the double
  that \<open>parseFloat\<close> reads from \<open>k\<close> tenths, within \<open>2 ^ -45\<close> of \<open>k / 10\<close>,
  where \<open>k / 10\<close> is at most \<open>0.05\<close> from the ratio
  \<open>matchedCount / totalInputCount * 100\<close> itself: \<open>k\<close> is that ratio rounded to
  one decimal place or, when the ratio lies halfway between two tenths and only then,
  the lower of the two.
\<close>

theorem matchReturnSns_partition:
  assumes "userSns \<noteq> []" and "crawledMap \<noteq> []"
  shows "matched (fst (matchReturnSns (Some userSns) (Some crawledMap) c))
           = map (\<lambda>k. \<lparr>matched_sn = k, matched_id = the (map_of crawledMap (JStr k))\<rparr>)
               (filter (\<lambda>k. JStr k \<in> fst ` set crawledMap) userSns)
       \<and> unmatched (fst (matchReturnSns (Some userSns) (Some crawledMap) c))
           = filter (\<lambda>k. JStr k \<notin> fst ` set crawledMap) userSns
       \<and> matchRate (fst (matchReturnSns (Some userSns) (Some crawledMap) c))
           = round_one_decimal
               (dmul (ddiv (dnat (length (filter (\<lambda>k. JStr k \<in> fst ` set crawledMap) userSns)))
                           (dnat (length userSns)))
                     (dnat 100))
       \<and> (length userSns < 2 ^ 32 \<longrightarrow>
            (\<exists>k. matchRate (fst (matchReturnSns (Some userSns) (Some crawledMap) c))
                    = parseFloat_tenths k
                 \<and> \<bar>dval (matchRate (fst (matchReturnSns (Some userSns) (Some crawledMap) c)))
                      - of_nat k / 10\<bar> \<le> 1 / 2 ^ 45
                 \<and> \<bar>of_nat k / 10
                      - rate_percent
                          (length (matched (fst (matchReturnSns (Some userSns) (Some crawledMap) c))))
                          (length userSns)\<bar> \<le> 1 / 20
                 \<and> (k = round_tenths
                           (rate_percent
                              (length (matched (fst (matchReturnSns (Some userSns) (Some crawledMap) c))))
                              (length userSns))
                    \<or> of_nat k / 10 + 1 / 20
                        = rate_percent
                            (length (matched (fst (matchReturnSns (Some userSns) (Some crawledMap) c))))
                            (length userSns))))"
proof -
  define m where "m = length (filter (\<lambda>k. map_has crawledMap (JStr k)) userSns)"
  define n where "n = length userSns"
  define k where "k = toFixed1 (dmul (ddiv (dnat m) (dnat n)) (dnat 100))"
  have "map (\<lambda>k. \<lparr>matched_sn = k, matched_id = map_get crawledMap (JStr k)\<rparr>)
             (filter (\<lambda>k. map_has crawledMap (JStr k)) userSns)
        = map (\<lambda>k. \<lparr>matched_sn = k, matched_id = the (map_of crawledMap (JStr k))\<rparr>)
             (filter (\<lambda>k. map_has crawledMap (JStr k)) userSns)"
    by (rule map_cong) (simp_all add: map_get_the)
  then have first: "matched (fst (matchReturnSns (Some userSns) (Some crawledMap) c))
           = map (\<lambda>k. \<lparr>matched_sn = k, matched_id = the (map_of crawledMap (JStr k))\<rparr>)
               (filter (\<lambda>k. JStr k \<in> fst ` set crawledMap) userSns)
       \<and> unmatched (fst (matchReturnSns (Some userSns) (Some crawledMap) c))
           = filter (\<lambda>k. JStr k \<notin> fst ` set crawledMap) userSns
       \<and> matchRate (fst (matchReturnSns (Some userSns) (Some crawledMap) c))
           = round_one_decimal
               (dmul (ddiv (dnat (length (filter (\<lambda>k. JStr k \<in> fst ` set crawledMap) userSns)))
                           (dnat (length userSns)))
                     (dnat 100))"
    unfolding matchReturnSns_main[OF assms] round_one_decimal_def round_tenths_def
      parseFloat_tenths_def toFixed1_floor
    by (simp add: map_has_iff)
  have len: "length (matched (fst (matchReturnSns (Some userSns) (Some crawledMap) c))) = m"
    unfolding matchReturnSns_main[OF assms] m_def by simp
  have rate: "matchRate (fst (matchReturnSns (Some userSns) (Some crawledMap) c))
                = parseFloat_tenths k"
    unfolding matchReturnSns_main[OF assms] k_def m_def n_def by simp
  have npos: "0 < n" using assms(1) by (simp add: n_def)
  have mn: "m \<le> n" unfolding m_def n_def by (rule length_filter_le)
  have second: "length userSns < 2 ^ 32 \<longrightarrow>
            (\<exists>k. matchRate (fst (matchReturnSns (Some userSns) (Some crawledMap) c))
                    = parseFloat_tenths k
                 \<and> \<bar>dval (matchRate (fst (matchReturnSns (Some userSns) (Some crawledMap) c)))
                      - of_nat k / 10\<bar> \<le> 1 / 2 ^ 45
                 \<and> \<bar>of_nat k / 10
                      - rate_percent
                          (length (matched (fst (matchReturnSns (Some userSns) (Some crawledMap) c))))
                          (length userSns)\<bar> \<le> 1 / 20
                 \<and> (k = round_tenths
                           (rate_percent
                              (length (matched (fst (matchReturnSns (Some userSns) (Some crawledMap) c))))
                              (length userSns))
                    \<or> of_nat k / 10 + 1 / 20
                        = rate_percent
                            (length (matched (fst (matchReturnSns (Some userSns) (Some crawledMap) c))))
                            (length userSns)))"
  proof
    assume "length userSns < 2 ^ 32"
    then have nb: "n < 2 ^ 32" by (simp only: n_def)
    from rate_nearest[OF npos mn nb]
    have r1: "\<bar>of_nat k / 10 - rate_percent m n\<bar> \<le> 1 / 20"
      and r2: "k = round_tenths (rate_percent m n) \<or> of_nat k / 10 + 1 / 20 = rate_percent m n"
      and r3: "k \<le> 1000"
      unfolding k_def by (simp_all only:)
    from parseFloat_near[OF r3]
    have r4: "\<bar>dval (parseFloat_tenths k) - of_nat k / 10\<bar> \<le> 1 / 2 ^ 45" .
    show "\<exists>k. matchRate (fst (matchReturnSns (Some userSns) (Some crawledMap) c))
                    = parseFloat_tenths k
                 \<and> \<bar>dval (matchRate (fst (matchReturnSns (Some userSns) (Some crawledMap) c)))
                      - of_nat k / 10\<bar> \<le> 1 / 2 ^ 45
                 \<and> \<bar>of_nat k / 10
                      - rate_percent
                          (length (matched (fst (matchReturnSns (Some userSns) (Some crawledMap) c))))
                          (length userSns)\<bar> \<le> 1 / 20
                 \<and> (k = round_tenths
                           (rate_percent
                              (length (matched (fst (matchReturnSns (Some userSns) (Some crawledMap) c))))
                              (length userSns))
                    \<or> of_nat k / 10 + 1 / 20
                        = rate_percent
                            (length (matched (fst (matchReturnSns (Some userSns) (Some crawledMap) c))))
                            (length userSns))"
      unfolding len rate n_def[symmetric]
      using r1 r2 r4 by (intro exI[of _ k] conjI) (simp_all only:)
  qed
  from first second show ?thesis by (simp only: simp_thms)
qed

text \<open>
  Ten keys of which seven are in the index, as in the end-to-end example of the
  specification: the rate is 70.
\<close>

theorem matchReturnSns_partition_witness:
  "ten_keys \<noteq> [] \<and> seven_of_ten \<noteq> [] \<and> length ten_keys < 2 ^ 32
   \<and> map matched_sn
         (matched (fst (matchReturnSns (Some ten_keys) (Some seven_of_ten) empty_matcher_cache)))
       = [js ''K01'', js ''K02'', js ''K03'', js ''K04'', js ''K05'', js ''K06'', js ''K07'']
   \<and> map matched_id
         (matched (fst (matchReturnSns (Some ten_keys) (Some seven_of_ten) empty_matcher_cache)))
       = [JNum 101, JNum 102, JNum 103, JNum 104, JNum 105, JNum 106, JNum 107]
   \<and> unmatched (fst (matchReturnSns (Some ten_keys) (Some seven_of_ten) empty_matcher_cache))
       = [js ''K08'', js ''K09'', js ''K10'']
   \<and> dval (matchRate (fst (matchReturnSns (Some ten_keys) (Some seven_of_ten)
               empty_matcher_cache))) = 70
   \<and> rate_percent 7 10 = 70
   \<and> (\<exists>k. \<bar>dval (matchRate (fst (matchReturnSns (Some ten_keys) (Some seven_of_ten)
                      empty_matcher_cache))) - of_nat k / 10\<bar> \<le> 1 / 2 ^ 45
          \<and> \<bar>of_nat k / 10 - rate_percent 7 10\<bar> \<le> 1 / 20)"
proof -
  have "round_one_decimal (dmul (ddiv (dnat 7) (dnat 10)) (dnat 100))
          = parseFloat_tenths (toFixed1 (dmul (ddiv (dnat 7) (dnat 10)) (dnat 100)))"
    by (simp only: round_one_decimal_def round_tenths_def parseFloat_tenths_def toFixed1_floor)
  then have r: "dval (round_one_decimal (dmul (ddiv (dnat 7) (dnat 10)) (dnat 100))) = 70"
    by (simp add: double_eval)
  have len: "Suc (Suc (Suc (Suc (Suc (Suc (Suc 0)))))) = 7" by simp
  have ne: "ten_keys \<noteq> []" "seven_of_ten \<noteq> []"
    by (simp_all add: ten_keys_def seven_of_ten_def)
  have ten: "length ten_keys = 10" by (simp add: ten_keys_def)
  have lt: "length ten_keys < 2 ^ 32" by (simp add: ten)
  note t = matchReturnSns_partition [of ten_keys seven_of_ten empty_matcher_cache, OF ne]
  have first: "map matched_sn
         (matched (fst (matchReturnSns (Some ten_keys) (Some seven_of_ten) empty_matcher_cache)))
       = [js ''K01'', js ''K02'', js ''K03'', js ''K04'', js ''K05'', js ''K06'', js ''K07'']
   \<and> map matched_id
         (matched (fst (matchReturnSns (Some ten_keys) (Some seven_of_ten) empty_matcher_cache)))
       = [JNum 101, JNum 102, JNum 103, JNum 104, JNum 105, JNum 106, JNum 107]
   \<and> unmatched (fst (matchReturnSns (Some ten_keys) (Some seven_of_ten) empty_matcher_cache))
       = [js ''K08'', js ''K09'', js ''K10'']
   \<and> dval (matchRate (fst (matchReturnSns (Some ten_keys) (Some seven_of_ten)
               empty_matcher_cache))) = 70"
    using t[THEN conjunct1] t[THEN conjunct2, THEN conjunct1]
      t[THEN conjunct2, THEN conjunct2, THEN conjunct1] r
    by (simp add: ten_keys_def seven_of_ten_def js_def len)
  then have "length (map matched_sn
         (matched (fst (matchReturnSns (Some ten_keys) (Some seven_of_ten) empty_matcher_cache))))
       = 7" by simp
  then have seven: "length (matched (fst (matchReturnSns (Some ten_keys) (Some seven_of_ten)
                       empty_matcher_cache))) = 7"
    by (simp only: length_map)
  from t[THEN conjunct2, THEN conjunct2, THEN conjunct2] lt
  obtain k where k1: "\<bar>dval (matchRate (fst (matchReturnSns (Some ten_keys) (Some seven_of_ten)
                      empty_matcher_cache))) - of_nat k / 10\<bar> \<le> 1 / 2 ^ 45"
    and k2: "\<bar>of_nat k / 10
              - rate_percent
                  (length (matched (fst (matchReturnSns (Some ten_keys) (Some seven_of_ten)
                       empty_matcher_cache))))
                  (length ten_keys)\<bar> \<le> 1 / 20"
    by blast
  from k2 have "\<bar>of_nat k / 10 - rate_percent 7 10\<bar> \<le> 1 / 20" by (simp only: seven ten)
  with k1 have second:
    "\<exists>k. \<bar>dval (matchRate (fst (matchReturnSns (Some ten_keys) (Some seven_of_ten)
                      empty_matcher_cache))) - of_nat k / 10\<bar> \<le> 1 / 2 ^ 45
          \<and> \<bar>of_nat k / 10 - rate_percent 7 10\<bar> \<le> 1 / 20"
    by blast
  have "rate_percent 7 10 = 70" by (simp add: rate_percent_def)
  then show ?thesis using ne lt first second by (simp only: simp_thms)
qed

text \<open>
  The rate of the specification does not hold for the sample of 80 keys: the ratio
  \<open>28.75\<close> rounded to one decimal place is \<open>28.8\<close>, and the source returns
  \<open>28.7\<close>.
\<close>

theorem matchReturnSns_rate_counterexample:
  "sample_keys \<noteq> [] \<and> sample_index \<noteq> [] \<and> length sample_keys = 80
   \<and> length (matched (fst (matchReturnSns (Some sample_keys) (Some sample_index)
         empty_matcher_cache))) = 23
   \<and> rate_percent 23 80 = 115 / 4
   \<and> round_tenths (rate_percent 23 80) = 288
   \<and> matchRate (fst (matchReturnSns (Some sample_keys) (Some sample_index) empty_matcher_cache))
       = parseFloat_tenths 287
   \<and> matchRate (fst (matchReturnSns (Some sample_keys) (Some sample_index) empty_matcher_cache))
       \<noteq> parseFloat_tenths (round_tenths (rate_percent 23 80))"
proof -
  have n1: "sample_keys \<noteq> []" by (simp add: sample_keys_def)
  have n2: "sample_index \<noteq> []" by (simp add: sample_index_def)
  have l: "length sample_keys = 80" by (simp add: sample_keys_def)
  have m: "length (matched (fst (matchReturnSns (Some sample_keys) (Some sample_index)
         empty_matcher_cache))) = 23"
    unfolding matchReturnSns_main[OF n1 n2] sample_matched by simp
  show ?thesis
    using n1 n2 l m sample_rate tenths_differ sample_exact by (simp only: simp_thms)
qed

text \<open>
  C3. Matching a key list that is not empty against an index that is absent or has no
  entry shows the error "no order data, crawl first" and returns every key as
  unmatched; against an index that has entries no error is shown, whether or not a
  key is found.
\<close>

theorem matchReturnSns_empty_index:
  assumes "userSns \<noteq> []" and "crawledMap = None \<or> crawledMap = Some []" and "idx \<noteq> []"
  shows "matchReturnSns (Some userSns) crawledMap c
           = (\<lparr>matched = [], unmatched = userSns, matchRate = dnat 0\<rparr>,
              [ShowError NoOrderDataCrawlFirst], c)
       \<and> \<not> list_ex is_error (fst (snd (matchReturnSns (Some userSns) (Some idx) c')))"
proof
  show "matchReturnSns (Some userSns) crawledMap c
           = (\<lparr>matched = [], unmatched = userSns, matchRate = dnat 0\<rparr>,
              [ShowError NoOrderDataCrawlFirst], c)"
    using assms(1,2) by (auto simp: matchReturnSns_def map_size_def)
  show "\<not> list_ex is_error (fst (snd (matchReturnSns (Some userSns) (Some idx) c')))"
    unfolding matchReturnSns_main[OF assms(1,3)] by simp
qed

text \<open>
  One key against an index without entries, and against an index that does not hold
  the key.
\<close>

theorem matchReturnSns_empty_index_witness:
  "[js ''ABC123''] \<noteq> []
   \<and> ((Some [] :: (jsval, jsval) jsmap option) = None \<or> (Some [] :: (jsval, jsval) jsmap option) = Some [])
   \<and> [(JStr (js ''XYZ789''), JNum 5)] \<noteq> []
   \<and> fst (snd (matchReturnSns (Some [js ''ABC123'']) (Some []) empty_matcher_cache))
        = [ShowError NoOrderDataCrawlFirst]
   \<and> unmatched (fst (matchReturnSns (Some [js ''ABC123'']) (Some []) empty_matcher_cache))
        = [js ''ABC123'']
   \<and> \<not> list_ex is_error (fst (snd (matchReturnSns (Some [js ''ABC123''])
           (Some [(JStr (js ''XYZ789''), JNum 5)]) empty_matcher_cache)))"
  using matchReturnSns_empty_index [of "[js ''ABC123'']" "Some []"
      "[(JStr (js ''XYZ789''), JNum 5)]" empty_matcher_cache empty_matcher_cache]
  by simp

lemma snToIdMap_after:
  "map_of (snToIdMap (snd (snd (matchReturnSns userSns crawledMap c)))) k =
     (case (userSns, crawledMap) of
        (Some sns, Some m) \<Rightarrow>
          if k \<in> set sns \<and> JStr k \<in> fst ` set m then map_of m (JStr k) else map_of (snToIdMap c) k
      | _ \<Rightarrow> map_of (snToIdMap c) k)"
proof (cases userSns)
  case None
  then show ?thesis by (simp add: matchReturnSns_def)
next
  case (Some sns)
  show ?thesis
  proof (cases crawledMap)
    case None
    then show ?thesis using Some by (simp add: matchReturnSns_def)
  next
    case (Some m)
    show ?thesis
    proof (cases "sns = [] \<or> m = []")
      case True
      then show ?thesis using Some \<open>userSns = Some sns\<close>
        by (auto simp: matchReturnSns_def map_size_def)
    next
      case False
      then have "sns \<noteq> []" "m \<noteq> []" by simp_all
      from matchReturnSns_main[OF this] show ?thesis
        using Some \<open>userSns = Some sns\<close>
        by (auto simp: map_of_fold_set map_has_iff map_get_def split: option.splits
                 simp: map_of_eq_None_iff)
    qed
  qed
qed

text \<open>
  C10. \<open>cache.snToIdMap\<close> only grows under \<open>matchReturnSns\<close>: every key it holds
  stays, a key matched by the call is set to the id the index gives it, every other
  key keeps its entry. \<open>getReturnId\<close> reads this map, whichever call wrote the entry;
  \<open>parseUserInput\<close> leaves the map as it is; and after \<open>clearCache\<close> the map is
  empty and every lookup returns \<open>null\<close>.
\<close>

theorem snToIdMap_cumulative:
  "fst ` set (snToIdMap c)
     \<subseteq> fst ` set (snToIdMap (snd (snd (matchReturnSns userSns crawledMap c))))
   \<and> map_of (snToIdMap (snd (snd (matchReturnSns userSns crawledMap c)))) k
       = (case (userSns, crawledMap) of
            (Some sns, Some m) \<Rightarrow>
              if k \<in> set sns \<and> JStr k \<in> fst ` set m then map_of m (JStr k)
              else map_of (snToIdMap c) k
          | _ \<Rightarrow> map_of (snToIdMap c) k)
   \<and> getReturnId c k
       = (case map_of (snToIdMap c) k of
            None \<Rightarrow> JNull
          | Some v \<Rightarrow> if truthy v then v else JNull)
   \<and> snToIdMap (snd (snd (parseUserInput input c))) = snToIdMap c
   \<and> snToIdMap (clearCache c) = []
   \<and> getReturnId (clearCache c) k = JNull"
proof (intro conjI)
  show "snToIdMap (snd (snd (parseUserInput input c))) = snToIdMap c"
    by (simp add: parseUserInput_def Let_def split: jsval.splits)
  show "fst ` set (snToIdMap c)
     \<subseteq> fst ` set (snToIdMap (snd (snd (matchReturnSns userSns crawledMap c))))"
  proof
    fix x assume "x \<in> fst ` set (snToIdMap c)"
    then have a: "map_of (snToIdMap c) x \<noteq> None" by (simp add: map_of_eq_None_iff)
    have b: "x \<in> set sns \<and> JStr x \<in> fst ` set m \<Longrightarrow> map_of m (JStr x) \<noteq> None" for sns m
      by (simp add: map_of_eq_None_iff)
    have "map_of (snToIdMap (snd (snd (matchReturnSns userSns crawledMap c)))) x \<noteq> None"
      unfolding snToIdMap_after using a b
      by (auto split: option.splits prod.splits)
    then show "x \<in> fst ` set (snToIdMap (snd (snd (matchReturnSns userSns crawledMap c))))"
      by (simp only: map_of_eq_None_iff not_not)
  qed
  show "getReturnId c k
       = (case map_of (snToIdMap c) k of
            None \<Rightarrow> JNull
          | Some v \<Rightarrow> if truthy v then v else JNull)"
    by (simp add: getReturnId_def map_get_def Let_def split: option.splits)
  show "getReturnId (clearCache c) k = JNull"
    by (simp add: getReturnId_def clearCache_def map_get_def)
qed (simp_all add: snToIdMap_after clearCache_def)

text \<open>
  Two calls with different keys and indexes: the id recorded by the first call is
  still returned after the second, and no longer after \<open>clearCache\<close>.
\<close>

theorem snToIdMap_cumulative_witness:
  "getReturnId
     (snd (snd (matchReturnSns (Some [js ''BBB'']) (Some [(JStr (js ''BBB''), JNum 2)])
        (snd (snd (matchReturnSns (Some [js ''AAA'', js ''CCC''])
           (Some [(JStr (js ''AAA''), JNum 1)]) empty_matcher_cache))))))
     (js ''AAA'') = JNum 1
   \<and> getReturnId
       (clearCache
         (snd (snd (matchReturnSns (Some [js ''BBB'']) (Some [(JStr (js ''BBB''), JNum 2)])
            (snd (snd (matchReturnSns (Some [js ''AAA'', js ''CCC''])
               (Some [(JStr (js ''AAA''), JNum 1)]) empty_matcher_cache)))))))
       (js ''AAA'') = JNull"
  using
    snToIdMap_cumulative [of empty_matcher_cache "Some [js ''AAA'', js ''CCC'']"
      "Some [(JStr (js ''AAA''), JNum 1)]" "js ''AAA''"]
    snToIdMap_cumulative [of
      "snd (snd (matchReturnSns (Some [js ''AAA'', js ''CCC''])
           (Some [(JStr (js ''AAA''), JNum 1)]) empty_matcher_cache))"
      "Some [js ''BBB'']" "Some [(JStr (js ''BBB''), JNum 2)]" "js ''AAA''"]
    snToIdMap_cumulative [of
      "snd (snd (matchReturnSns (Some [js ''BBB'']) (Some [(JStr (js ''BBB''), JNum 2)])
            (snd (snd (matchReturnSns (Some [js ''AAA'', js ''CCC''])
               (Some [(JStr (js ''AAA''), JNum 1)]) empty_matcher_cache)))))"
      None None "js ''AAA''"]
  by (simp add: js_def empty_matcher_cache_def)


subsection \<open>Filtering the raw records\<close>

lemma valid_item_iff:
  "valid_item item \<longleftrightarrow>
     present_nonempty_nonzero (get_prop item (js ''return_id''))
     \<and> present_nonempty_nonzero (get_prop item (js ''return_sn''))"
  by (cases item) (auto simp: valid_item_def present_nonempty_nonzero_def)

text \<open>
  C4. Every record \<open>filterValidData\<close> returns has an id and a key that are present,
  not empty and not zero; the output is, in order, the two fields \<open>return_id\<close> and
  \<open>return_sn\<close> of each input element that has both so, and nothing else of it; the
  count written to the log is the input length minus the output length; an argument
  that is not an array gives the empty output.
\<close>

theorem filterValidData_keeps_valid:
  "(\<forall>r \<in> set (fst (filterValidData (Some items))).
      present_nonempty_nonzero (return_id r) \<and> present_nonempty_nonzero (return_sn r))
   \<and> fst (filterValidData (Some items))
       = map (\<lambda>item. \<lparr>return_id = get_prop item (js ''return_id''),
                       return_sn = get_prop item (js ''return_sn'')\<rparr>)
           (filter (\<lambda>item. present_nonempty_nonzero (get_prop item (js ''return_id''))
                          \<and> present_nonempty_nonzero (get_prop item (js ''return_sn''))) items)
   \<and> length (fst (filterValidData (Some items))) \<le> length items
   \<and> snd (filterValidData (Some items))
       = (if length (fst (filterValidData (Some items))) < length items
          then [AddLogToUI (FilteredOutInvalid
                  (length items - length (fst (filterValidData (Some items))))) Warning]
          else [])
   \<and> filterValidData None = ([], [])"
proof -
  have out: "fst (filterValidData (Some items)) = map keep_id_sn (filter valid_item items)"
    by (simp add: filterValidData_def Let_def)
  have len: "length (filter valid_item items) \<le> length items" by simp
  show ?thesis
    unfolding out
    apply (intro conjI)
    subgoal by (auto simp: keep_id_sn_def valid_item_iff)
    subgoal by (simp add: keep_id_sn_def valid_item_iff[abs_def])
    subgoal by simp
    subgoal using len by (auto simp: filterValidData_def Let_def)
    subgoal by (simp add: filterValidData_def)
    done
qed

text \<open>
  The five sample elements: two records are kept and three are counted as dropped.
\<close>

theorem filterValidData_keeps_valid_witness:
  "fst (filterValidData (Some sample_items))
     = [\<lparr>return_id = JNum 7, return_sn = JStr (js ''ABC123'')\<rparr>,
        \<lparr>return_id = JNum 9, return_sn = JStr (js ''ABC123'')\<rparr>]
   \<and> \<lparr>return_id = JNum 7, return_sn = JStr (js ''ABC123'')\<rparr>
       \<in> set (fst (filterValidData (Some sample_items)))
   \<and> present_nonempty_nonzero (JNum 7) \<and> present_nonempty_nonzero (JStr (js ''ABC123''))
   \<and> snd (filterValidData (Some sample_items)) = [AddLogToUI (FilteredOutInvalid 3) Warning]"
  using filterValidData_keeps_valid [of sample_items]
  by (simp add: sample_items_def js_def present_nonempty_nonzero_def)


subsection \<open>The page loop\<close>

lemma crawl_pages_done: "\<not> hasMoreData l \<Longrightarrow> crawl_pages fetch dr l = Some l"
  by (subst crawl_pages.simps) simp

lemma page_body_stops:
  assumes "stops (fetch (currentPage l) (currentOffset l) dr)"
  shows "\<exists>l'. page_body fetch dr l = Break l'
             \<and> sent l' = sent l @ [(currentPage l, currentOffset l)]"
  using assms
  by (auto simp: stops_def page_body_def Let_def read_pagination_def
           split: response.splits option.splits)

lemma crawl_pages_stops:
  assumes "hasMoreData l" and "stops (fetch (currentPage l) (currentOffset l) dr)"
  shows "\<exists>r. crawl_pages fetch dr l = Some r
            \<and> sent r = sent l @ [(currentPage l, currentOffset l)]"
proof -
  from page_body_stops[of fetch l dr] assms(2)
  obtain l' where "page_body fetch dr l = Break l'"
    "sent l' = sent l @ [(currentPage l, currentOffset l)]" by blast
  then show ?thesis using assms(1) by (subst crawl_pages.simps) simp
qed

lemma page_body_next:
  assumes "page_body fetch dr l = Next_page l'"
  shows "currentPage l' = currentPage l + 1 \<and> length (sent l') = length (sent l) + 1"
  using assms
  by (auto simp: page_body_def Let_def read_pagination_def
           split: response.splits option.splits if_splits)

lemma page_body_break:
  assumes "page_body fetch dr l = Break l'"
  shows "length (sent l') = length (sent l) + 1"
  using assms
  by (auto simp: page_body_def Let_def read_pagination_def
           split: response.splits option.splits if_splits)

lemma round_start_Some:
  "round_start fetch dr n l = Some l' \<Longrightarrow>
     crawl_pages fetch dr l = crawl_pages fetch dr l'
     \<and> currentPage l' = currentPage l + n
     \<and> length (sent l') = length (sent l) + n"
proof (induction n arbitrary: l)
  case 0
  then show ?case by simp
next
  case (Suc n)
  from Suc.prems obtain l1 where
    h: "hasMoreData l" and b: "page_body fetch dr l = Next_page l1"
    and r: "round_start fetch dr n l1 = Some l'"
    by (auto split: if_splits body_end.splits)
  have "crawl_pages fetch dr l = crawl_pages fetch dr l1"
    using h b by (subst crawl_pages.simps) simp
  then show ?case using Suc.IH[OF r] page_body_next[OF b] by simp
qed

lemma round_start_None:
  "round_start fetch dr n l = None \<Longrightarrow>
     \<exists>r. crawl_pages fetch dr l = Some r \<and> length (sent r) \<le> length (sent l) + n"
proof (induction n arbitrary: l)
  case 0
  then show ?case by simp
next
  case (Suc n)
  show ?case
  proof (cases "hasMoreData l")
    case False
    then show ?thesis by (simp add: crawl_pages_done)
  next
    case True
    show ?thesis
    proof (cases "page_body fetch dr l")
      case (Break l')
      then have "crawl_pages fetch dr l = Some l'"
        using True by (subst crawl_pages.simps) simp
      then show ?thesis using page_body_break[OF Break] by simp
    next
      case (Next_page l1)
      then have n: "round_start fetch dr n l1 = None" using Suc.prems True by simp
      have "crawl_pages fetch dr l = crawl_pages fetch dr l1"
        using True Next_page by (subst crawl_pages.simps) simp
      then show ?thesis using Suc.IH[OF n] page_body_next[OF Next_page] by auto
    qed
  qed
qed

lemma crawl_pages_round:
  assumes "round_start fetch dr n l = Some l'"
    and "stops (fetch (currentPage l') (currentOffset l') dr)"
  shows "\<exists>r. crawl_pages fetch dr l = Some r \<and> length (sent r) \<le> length (sent l) + n + 1"
proof (cases "hasMoreData l'")
  case False
  then show ?thesis using round_start_Some[OF assms(1)] by (simp add: crawl_pages_done)
next
  case True
  from crawl_pages_stops[of l' fetch dr] True assms(2)
  obtain r where "crawl_pages fetch dr l' = Some r"
    "sent r = sent l' @ [(currentPage l', currentOffset l')]" by blast
  then show ?thesis using round_start_Some[OF assms(1)] by simp
qed

lemma crawl_pages_page:
  assumes "1 \<le> N" and "\<forall>offset. stops (fetch N offset dr)"
  shows "\<exists>r. crawl_pages fetch dr first_round = Some r \<and> length (sent r) \<le> N"
proof (cases "round_start fetch dr (N - 1) first_round")
  case None
  from round_start_None[OF None] show ?thesis by (auto simp: first_round_def)
next
  case (Some l)
  from round_start_Some[OF Some] have "currentPage l = N"
    using assms(1) by (simp add: first_round_def)
  then have "stops (fetch (currentPage l) (currentOffset l) dr)" using assms(2) by simp
  from crawl_pages_round[OF Some this] show ?thesis
    using assms(1) by (auto simp: first_round_def)
qed

text \<open>
  C9. If a request of the loop is answered by an error, a page without records or a
  page with \<open>has_more\<close> false, the loop ends: when that happens to the request of
  round \<open>n + 1\<close>, the loop has sent at most \<open>n + 1\<close> requests and \<open>crawlOrders\<close>
  returns; in particular, when the \<open>N\<close>-th page is answered so whatever offset is
  asked for, at most \<open>N\<close> requests are sent; and each such response ends the loop at
  the request it answers.
\<close>

theorem crawl_pages_terminates:
  "(\<forall>n l. round_start fetch dr n first_round = Some l
            \<and> stops (fetch (currentPage l) (currentOffset l) dr)
          \<longrightarrow> (\<exists>r. crawl_pages fetch dr first_round = Some r \<and> length (sent r) \<le> n + 1
                   \<and> (\<exists>result. crawlOrders fetch (Some dr) now c = Some result)))
   \<and> (\<forall>N. 1 \<le> N \<and> (\<forall>offset. stops (fetch N offset dr))
          \<longrightarrow> (\<exists>r. crawl_pages fetch dr first_round = Some r \<and> length (sent r) \<le> N))
   \<and> (\<forall>l. hasMoreData l \<and> stops (fetch (currentPage l) (currentOffset l) dr)
          \<longrightarrow> (\<exists>r. crawl_pages fetch dr l = Some r
                   \<and> sent r = sent l @ [(currentPage l, currentOffset l)]))"
proof (intro conjI allI impI)
  fix n and l :: loop
  assume a: "round_start fetch dr n first_round = Some l
            \<and> stops (fetch (currentPage l) (currentOffset l) dr)"
  then obtain r where r: "crawl_pages fetch dr first_round = Some r"
    "length (sent r) \<le> length (sent first_round) + n + 1"
    using crawl_pages_round[of fetch dr n first_round l] by blast
  then have "\<exists>result. crawlOrders fetch (Some dr) now c = Some result"
    by (simp add: crawlOrders_def split: prod.splits)
  then show "\<exists>r. crawl_pages fetch dr first_round = Some r \<and> length (sent r) \<le> n + 1
                   \<and> (\<exists>result. crawlOrders fetch (Some dr) now c = Some result)"
    using r by (simp add: first_round_def)
next
  fix N
  assume "1 \<le> N \<and> (\<forall>offset. stops (fetch N offset dr))"
  then show "\<exists>r. crawl_pages fetch dr first_round = Some r \<and> length (sent r) \<le> N"
    using crawl_pages_page[of N fetch dr] by blast
next
  fix l :: loop
  assume "hasMoreData l \<and> stops (fetch (currentPage l) (currentOffset l) dr)"
  then show "\<exists>r. crawl_pages fetch dr l = Some r
                   \<and> sent r = sent l @ [(currentPage l, currentOffset l)]"
    using crawl_pages_stops[of l fetch dr] by blast
qed

lemma sample_first_page: "page_body sample_fetch sample_range first_round = Next_page second_round"
  by (simp add: page_body_def first_round_def sample_fetch_def read_pagination_def
        has_more_is_false_def second_round_def sample_items_def Let_def)

lemma sample_second_page: "page_body sample_fetch sample_range second_round = Break last_round"
  by (simp add: page_body_def second_round_def sample_fetch_def read_pagination_def
        has_more_is_false_def last_round_def sample_items_def Let_def pageSize_def)

lemma sample_crawl: "crawl_pages sample_fetch sample_range first_round = Some last_round"
proof -
  have "crawl_pages sample_fetch sample_range first_round
          = crawl_pages sample_fetch sample_range second_round"
    by (subst crawl_pages.simps) (simp add: sample_first_page, simp add: first_round_def)
  also have "\<dots> = Some last_round"
    by (subst crawl_pages.simps) (simp add: sample_second_page, simp add: second_round_def)
  finally show ?thesis .
qed

text \<open>
  The sample service stops at its second page: the loop sends two requests.
\<close>

theorem crawl_pages_terminates_witness:
  "round_start sample_fetch sample_range 1 first_round = Some second_round
   \<and> stops (sample_fetch (currentPage second_round) (currentOffset second_round) sample_range)
   \<and> (\<exists>r. crawl_pages sample_fetch sample_range first_round = Some r \<and> length (sent r) \<le> 2)
   \<and> (\<exists>result. crawlOrders sample_fetch (Some sample_range) 0 empty_crawler_cache = Some result)
   \<and> (\<forall>offset. stops (sample_fetch 2 offset sample_range))
   \<and> hasMoreData second_round
   \<and> (\<exists>r. crawl_pages sample_fetch sample_range second_round = Some r
          \<and> sent r = sent second_round @ [(2, JNum 50)])
   \<and> crawl_pages sample_fetch sample_range first_round = Some last_round"
proof -
  have h1: "round_start sample_fetch sample_range 1 first_round = Some second_round"
    by (simp add: sample_first_page) (simp add: first_round_def)
  have h2: "\<forall>offset. stops (sample_fetch 2 offset sample_range)"
    by (simp add: stops_def sample_fetch_def has_more_is_false_def sample_items_def)
  have h3: "stops (sample_fetch (currentPage second_round) (currentOffset second_round) sample_range)"
    using h2 by (simp add: second_round_def)
  have h4: "hasMoreData second_round" "currentPage second_round = 2"
    "currentOffset second_round = JNum 50"
    by (simp_all add: second_round_def)
  have h5: "(1::nat) \<le> 2" by simp
  have t: "(1::nat) + 1 = 2" by simp
  from crawl_pages_terminates[of sample_fetch sample_range 0 empty_crawler_cache]
  show ?thesis using h1 h2 h3 h4 h5 sample_crawl
    by (metis t)
qed


subsection \<open>Building the index\<close>

lemma index_record_update:
  "index_record x m = AList.update (return_sn x) (return_id x) m"
  by (simp add: index_record_def map_set_def)

lemma map_of_fold_index:
  "map_of (fold index_record xs m)
     = map_of (rev (map (\<lambda>r. (return_sn r, return_id r)) xs) @ m)"
proof (induction xs arbitrary: m)
  case Nil
  then show ?case by simp
next
  case (Cons x xs)
  have "map_of (fold index_record (x # xs) m)
          = map_of (rev (map (\<lambda>r. (return_sn r, return_id r)) xs)
                    @ AList.update (return_sn x) (return_id x) m)"
    using Cons.IH[of "index_record x m"] by (simp add: index_record_update[of x m])
  also have "\<dots> = map_of (rev (map (\<lambda>r. (return_sn r, return_id r)) (x # xs)) @ m)"
    by (simp add: update_conv' map_add_def fun_eq_iff split: option.splits)
  finally show ?case .
qed

lemma keys_fold_index:
  "fst ` set (fold index_record xs m) = return_sn ` set xs \<union> fst ` set m"
proof (induction xs arbitrary: m)
  case Nil
  then show ?case by simp
next
  case (Cons x xs)
  have "fst ` set (AList.update (return_sn x) (return_id x) m) = insert (return_sn x) (fst ` set m)"
    using dom_update[of "return_sn x" "return_id x" m] by (simp add: dom_map_of_conv_image_fst)
  then show ?case
    using Cons.IH[of "index_record x m"] by (simp add: index_record_update[of x m])
qed

lemma distinct_fold_index:
  "distinct (map fst m) \<Longrightarrow> distinct (map fst (fold index_record xs m))"
proof (induction xs arbitrary: m)
  case Nil
  then show ?case by simp
next
  case (Cons x xs)
  have "distinct (map fst (index_record x m))"
    using Cons.prems by (simp add: index_record_update[of x m] distinct_update)
  from Cons.IH[OF this] show ?case by simp
qed

lemma map_of_rev_last:
  "k \<in> f ` set xs \<Longrightarrow>
     map_of (rev (map (\<lambda>r. (f r, g r)) xs)) k = Some (g (last (filter (\<lambda>r. f r = k) xs)))"
proof (induction xs rule: rev_induct)
  case Nil
  then show ?case by simp
next
  case (snoc x xs)
  then show ?case by (cases "f x = k") auto
qed

lemma crawlOrders_Some:
  assumes "crawlOrders fetch (Some dr) now c = Some (Inr (filtered, notices, c'))"
  shows "filteredData c' = filtered \<and> crawled_snToIdMap c' = fold index_record filtered []"
  using assms
  by (auto simp: crawlOrders_def split: option.splits prod.splits)

text \<open>
  C6. When \<open>crawlOrders\<close> returns, the index maps the key of every filtered record
  to the id of the last filtered record with that key, its keys are the keys of the
  filtered records, each once, and its size is the number of distinct keys.
\<close>

theorem crawlOrders_index_last_wins:
  assumes "crawlOrders fetch (Some dr) now c = Some (Inr (filtered, notices, c'))"
  shows "filteredData c' = filtered
       \<and> (\<forall>r \<in> set filtered.
            map_of (crawled_snToIdMap c') (return_sn r)
              = Some (return_id (last (filter (\<lambda>r'. return_sn r' = return_sn r) filtered))))
       \<and> fst ` set (crawled_snToIdMap c') = return_sn ` set filtered
       \<and> distinct (map fst (crawled_snToIdMap c'))
       \<and> map_size (crawled_snToIdMap c') = card (return_sn ` set filtered)"
proof -
  have c: "filteredData c' = filtered" "crawled_snToIdMap c' = fold index_record filtered []"
    using crawlOrders_Some[OF assms] by simp_all
  have d: "distinct (map fst (fold index_record filtered []))"
    by (rule distinct_fold_index) simp
  have k: "fst ` set (fold index_record filtered []) = return_sn ` set filtered"
    by (simp add: keys_fold_index)
  have "length (fold index_record filtered []) = card (fst ` set (fold index_record filtered []))"
    using distinct_card[OF d] by simp
  then have s: "map_size (fold index_record filtered []) = card (return_sn ` set filtered)"
    by (simp add: map_size_def k)
  have l: "\<forall>r \<in> set filtered.
            map_of (fold index_record filtered []) (return_sn r)
              = Some (return_id (last (filter (\<lambda>r'. return_sn r' = return_sn r) filtered)))"
    by (simp add: map_of_fold_index map_of_rev_last)
  show ?thesis using c d k s l by simp
qed

lemma sample_crawlOrders:
  "crawlOrders sample_fetch (Some sample_range) 1702600000 empty_crawler_cache
     = Some (Inr ([\<lparr>return_id = JNum 7, return_sn = JStr (js ''ABC123'')\<rparr>,
                   \<lparr>return_id = JNum 9, return_sn = JStr (js ''ABC123'')\<rparr>],
                  [AddLogToUI (FilteredOutInvalid 3) Warning],
                  \<lparr>rawData = sample_items,
                   filteredData = [\<lparr>return_id = JNum 7, return_sn = JStr (js ''ABC123'')\<rparr>,
                                   \<lparr>return_id = JNum 9, return_sn = JStr (js ''ABC123'')\<rparr>],
                   crawled_snToIdMap = [(JStr (js ''ABC123''), JNum 9)],
                   lastUpdate = Some 1702600000\<rparr>))"
  unfolding crawlOrders_def option.case sample_crawl prod.case
  by (simp add: last_round_def filterValidData_def sample_items_def valid_item_def
        keep_id_sn_def js_def index_record_def map_set_def empty_crawler_cache_def)

text \<open>
  The crawl of the sample service: both valid records carry the key \<open>ABC123\<close>, the
  index has one entry and it holds the id of the second.
\<close>

theorem crawlOrders_index_last_wins_witness:
  "crawlOrders sample_fetch (Some sample_range) 1702600000 empty_crawler_cache
     = Some (Inr ([\<lparr>return_id = JNum 7, return_sn = JStr (js ''ABC123'')\<rparr>,
                   \<lparr>return_id = JNum 9, return_sn = JStr (js ''ABC123'')\<rparr>],
                  [AddLogToUI (FilteredOutInvalid 3) Warning],
                  \<lparr>rawData = sample_items,
                   filteredData = [\<lparr>return_id = JNum 7, return_sn = JStr (js ''ABC123'')\<rparr>,
                                   \<lparr>return_id = JNum 9, return_sn = JStr (js ''ABC123'')\<rparr>],
                   crawled_snToIdMap = [(JStr (js ''ABC123''), JNum 9)],
                   lastUpdate = Some 1702600000\<rparr>))
   \<and> map_of [(JStr (js ''ABC123''), JNum 9)] (JStr (js ''ABC123''))
       = Some (return_id (last [\<lparr>return_id = JNum 7, return_sn = JStr (js ''ABC123'')\<rparr>,
                                \<lparr>return_id = JNum 9, return_sn = JStr (js ''ABC123'')\<rparr>]))
   \<and> map_size [(JStr (js ''ABC123''), JNum 9)]
       = card {JStr (js ''ABC123'')}"
  using crawlOrders_index_last_wins[OF sample_crawlOrders] sample_crawlOrders
  by (simp add: map_size_def)


subsection \<open>Classifying an address\<close>

lemma starts_with_iff: "starts_with s p \<longleftrightarrow> (\<exists>after. s = p @ after)"
  by (induction s p rule: starts_with.induct) auto

lemma includes_str_iff: "includes_str s p \<longleftrightarrow> contains s p"
proof (induction s)
  case Nil
  then show ?case by (simp add: contains_def)
next
  case (Cons c cs)
  have "contains (c # cs) p \<longleftrightarrow> (\<exists>after. c # cs = p @ after) \<or> contains cs p"
  proof
    assume "contains (c # cs) p"
    then obtain before after where e: "c # cs = before @ p @ after" by (auto simp: contains_def)
    show "(\<exists>after. c # cs = p @ after) \<or> contains cs p"
    proof (cases before)
      case Nil
      then show ?thesis using e by auto
    next
      case (Cons b bs)
      then have "cs = bs @ p @ after" using e by simp
      then show ?thesis by (auto simp: contains_def)
    qed
  next
    assume "(\<exists>after. c # cs = p @ after) \<or> contains cs p"
    then show "contains (c # cs) p"
    proof
      assume "\<exists>after. c # cs = p @ after"
      then obtain after where "c # cs = [] @ p @ after" by auto
      then show ?thesis unfolding contains_def by blast
    next
      assume "contains cs p"
      then obtain before after where "cs = before @ p @ after" by (auto simp: contains_def)
      then have "c # cs = (c # before) @ p @ after" by simp
      then show ?thesis unfolding contains_def by blast
    qed
  qed
  then show ?case by (simp add: Cons.IH starts_with_iff)
qed

lemma entries_warehouseRules:
  "object_entries warehouseRules =
     [(js ''14460'', js ''BI JKT''), (js ''50121'', js ''BI SMR''), (js ''61254'', js ''BI SBY'')]"
  by (simp add: object_entries_def warehouseRules_def array_index_def digits_value_def
        is_digit_def js_def)

text \<open>
  C2, as amended. For every address string the classifier tries the codes in the
  order \<open>Object.entries\<close> gives the rules, which is the ascending numeric order
  of the codes: it returns \<open>BI JKT\<close> if the address contains \<open>14460\<close>; otherwise
  \<open>BI SMR\<close> if it contains \<open>50121\<close>; otherwise \<open>BI SBY\<close> if it contains
  \<open>61254\<close>; otherwise the label "other"; and the label "unknown" if the address is
  empty, \<open>null\<close> or absent.
\<close>

theorem identifyWarehouse_first_match:
  "identifyWarehouse (JStr s) =
     Inr (if s = [] then text_unknown
          else if contains s (js ''14460'') then js ''BI JKT''
          else if contains s (js ''50121'') then js ''BI SMR''
          else if contains s (js ''61254'') then js ''BI SBY''
          else text_other)
   \<and> identifyWarehouse JNull = Inr text_unknown
   \<and> identifyWarehouse JUndefined = Inr text_unknown
   \<and> map fst (object_entries warehouseRules) = [js ''14460'', js ''50121'', js ''61254'']"
  by (simp add: identifyWarehouse_def entries_warehouseRules includes_str_iff)

text \<open>
  C2 as stated fails where an address contains two codes: the order of the rule table
  as it is written would give \<open>BI SMR\<close> for this address, which contains
  \<open>50121\<close>; the classifier returns \<open>BI JKT\<close>.
\<close>

theorem identifyWarehouse_order_counterexample:
  "contains (js ''Gudang 50121, Jl. Raya 14460'') (js ''50121'')
   \<and> identifyWarehouse (JStr (js ''Gudang 50121, Jl. Raya 14460'')) = Inr (js ''BI JKT'')
   \<and> identifyWarehouse (JStr (js ''Gudang 50121, Jl. Raya 14460'')) \<noteq> Inr (js ''BI SMR'')"
proof -
  have a: "includes_str (js ''Gudang 50121, Jl. Raya 14460'') (js ''50121'')"
    by (simp add: js_def)
  have b: "includes_str (js ''Gudang 50121, Jl. Raya 14460'') (js ''14460'')"
    by (simp add: js_def)
  have c: "identifyWarehouse (JStr (js ''Gudang 50121, Jl. Raya 14460'')) = Inr (js ''BI JKT'')"
    using b by (simp add: identifyWarehouse_def entries_warehouseRules) (simp add: js_def)
  have d: "js ''BI JKT'' \<noteq> js ''BI SMR''" by (simp add: js_def)
  show ?thesis using a c d by (simp add: includes_str_iff)
qed


subsection \<open>One pair: the timer and the message\<close>

lemma timed_out_eq:
  "timed_out =
     (\<lparr>returnSn = js ''ABC123'', returnId = JNum 7, window_open = False, timer_set = False,
       listening = True,
       settled = Some \<lparr>success = JBool False, result_sn = js ''ABC123'', result_id = JNum 7,
                       address = JStr text_timeout, warehouse = text_unknown,
                       timestamp = js ''10:00:30''\<rparr>\<rparr>,
      \<lparr>cache_results = [], cache_processing = []\<rparr>)"
  by (simp add: timed_out_def on_timeout_def extractAddress_def empty_extractor_cache_def
        set_add_def set_delete_def resolve_def)

lemma sample_warehouse: "identifyWarehouse (JStr (js ''Jl. Raya 50121'')) = Inr (js ''BI SMR'')"
  by (simp add: identifyWarehouse_def entries_warehouseRules) (simp add: js_def)

lemma late_message_eq:
  "late_message =
     (None,
      \<lparr>returnSn = js ''ABC123'', returnId = JNum 7, window_open = False, timer_set = False,
       listening = False,
       settled = Some \<lparr>success = JBool False, result_sn = js ''ABC123'', result_id = JNum 7,
                       address = JStr text_timeout, warehouse = text_unknown,
                       timestamp = js ''10:00:30''\<rparr>\<rparr>,
      \<lparr>cache_results =
         [(js ''ABC123'',
           \<lparr>success = JBool True, result_sn = js ''ABC123'', result_id = JNum 7,
            address = JStr (js ''Jl. Raya 50121''), warehouse = js ''BI SMR'',
            timestamp = js ''10:00:31''\<rparr>)],
       cache_processing = []\<rparr>)"
proof -
  have g: "get_prop (address_message (JNum 7) (JStr (js ''Jl. Raya 50121''))) (js ''type'')
             = JStr (js ''SHOPEE_ADDRESS_EXTRACTED'')"
    "get_prop (address_message (JNum 7) (JStr (js ''Jl. Raya 50121''))) (js ''orderId'') = JNum 7"
    "get_prop (address_message (JNum 7) (JStr (js ''Jl. Raya 50121''))) (js ''success'') = JBool True"
    "get_prop (address_message (JNum 7) (JStr (js ''Jl. Raya 50121''))) (js ''address'')
             = JStr (js ''Jl. Raya 50121'')"
    "item_truthy (address_message (JNum 7) (JStr (js ''Jl. Raya 50121'')))"
    by (simp_all add: address_message_def js_def)
  have n: "js ''Jl. Raya 50121'' \<noteq> []" by (simp add: js_def)
  show ?thesis
    unfolding late_message_def timed_out_eq
    by (simp add: messageHandler_def g sample_warehouse n set_delete_def resolve_def map_set_def)
qed

lemma early_message_eq:
  "early_message =
     (None,
      \<lparr>returnSn = js ''ABC123'', returnId = JNum 7, window_open = False, timer_set = False,
       listening = False,
       settled = Some \<lparr>success = JBool True, result_sn = js ''ABC123'', result_id = JNum 7,
                       address = JStr (js ''Jl. Raya 50121''), warehouse = js ''BI SMR'',
                       timestamp = js ''10:00:29''\<rparr>\<rparr>,
      \<lparr>cache_results =
         [(js ''ABC123'',
           \<lparr>success = JBool True, result_sn = js ''ABC123'', result_id = JNum 7,
            address = JStr (js ''Jl. Raya 50121''), warehouse = js ''BI SMR'',
            timestamp = js ''10:00:29''\<rparr>)],
       cache_processing = []\<rparr>)"
proof -
  have g: "get_prop (address_message (JNum 7) (JStr (js ''Jl. Raya 50121''))) (js ''type'')
             = JStr (js ''SHOPEE_ADDRESS_EXTRACTED'')"
    "get_prop (address_message (JNum 7) (JStr (js ''Jl. Raya 50121''))) (js ''orderId'') = JNum 7"
    "get_prop (address_message (JNum 7) (JStr (js ''Jl. Raya 50121''))) (js ''success'') = JBool True"
    "get_prop (address_message (JNum 7) (JStr (js ''Jl. Raya 50121''))) (js ''address'')
             = JStr (js ''Jl. Raya 50121'')"
    "item_truthy (address_message (JNum 7) (JStr (js ''Jl. Raya 50121'')))"
    by (simp_all add: address_message_def js_def)
  have n: "js ''Jl. Raya 50121'' \<noteq> []" by (simp add: js_def)
  show ?thesis
    unfolding early_message_def
    by (simp add: messageHandler_def extractAddress_def empty_extractor_cache_def set_add_def
          g sample_warehouse n set_delete_def resolve_def map_set_def Let_def)
qed

text \<open>
  C1 fails on the code. After the timer has fired, the call is settled with the
  timeout result and nothing is cached for the key; the handler is still registered
  and does not look at the processing set, so a message that arrives afterwards is
  handled in full: the promise keeps the timeout result, while the cache now holds the
  result derived from the message for that key. A message that arrives before the
  timer settles the call with its result and clears the timer.
\<close>

theorem late_message_overwrites_timeout:
  "settled (fst timed_out) = Some timeout_result
   \<and> cache_processing (snd timed_out) = []
   \<and> getCachedResult (snd timed_out) (js ''ABC123'') = None
   \<and> settled (fst (snd late_message)) = Some timeout_result
   \<and> getCachedResult (snd (snd late_message)) (js ''ABC123'')
       = Some \<lparr>success = JBool True, result_sn = js ''ABC123'', result_id = JNum 7,
               address = JStr (js ''Jl. Raya 50121''), warehouse = js ''BI SMR'',
               timestamp = js ''10:00:31''\<rparr>
   \<and> snd late_message \<noteq> timed_out
   \<and> settled (fst (snd early_message))
       = Some \<lparr>success = JBool True, result_sn = js ''ABC123'', result_id = JNum 7,
               address = JStr (js ''Jl. Raya 50121''), warehouse = js ''BI SMR'',
               timestamp = js ''10:00:29''\<rparr>
   \<and> timer_set (fst (snd early_message)) = False
   \<and> on_timeout (js ''10:00:30'') (snd early_message) = snd early_message"
  by (simp add: timed_out_eq late_message_eq early_message_eq timeout_result_def
        getCachedResult_def on_timeout_def)


subsection \<open>The batch\<close>

text \<open>
  The callbacks run to completion: \<open>run_all_callbacks\<close> stops only when no settled
  promise is left in \<open>processing\<close>, never because its count of runs is used up.
\<close>

lemma dispatch_size:
  "length (processing (dispatch opened now q p)) + length (queue (dispatch opened now q p))
     = length (processing p) + length q"
proof (induction q arbitrary: p)
  case Nil
  then show ?case by simp
next
  case (Cons item rest)
  show ?case
  proof (cases "length (processing p) < maxConcurrent")
    case False
    then show ?thesis by simp
  next
    case True
    obtain cl ex where e: "extractAddress (matched_sn item) (matched_id item)
                   (opened (length (calls p))) now (cache p) = (cl, ex)"
      by (cases "extractAddress (matched_sn item) (matched_id item)
                   (opened (length (calls p))) now (cache p)")
    show ?thesis
      using True e
        Cons.IH[of "p\<lparr>cache := ex, calls := calls p @ [cl],
                       processing := processing p @ [length (calls p)]\<rparr>"]
      by simp
  qed
qed

lemma on_resolved_size:
  assumes "i \<in> set (processing p)" and "settled (calls p ! i) \<noteq> None"
  shows "Suc (length (processing (on_resolved opened now i p))
           + length (queue (on_resolved opened now i p)))
         = length (processing p) + length (queue p)"
proof -
  from assms(2) obtain r where r: "settled (calls p ! i) = Some r" by auto
  have "length (remove1 i (processing p)) = length (processing p) - 1"
    using assms(1) by (simp add: length_remove1)
  moreover have "0 < length (processing p)" using assms(1) by (cases "processing p") auto
  ultimately show ?thesis
    using r dispatch_size[of opened now "queue p"
        "p\<lparr>results := results p @ [r], processing := remove1 i (processing p)\<rparr>"]
    by (simp add: on_resolved_def processNext_def)
qed

lemma callbacks_run_to_completion:
  "length (processing p) + length (queue p) \<le> n \<Longrightarrow>
     find (\<lambda>i. settled (calls (run_callbacks opened now n p) ! i) \<noteq> None)
       (processing (run_callbacks opened now n p)) = None"
proof (induction n arbitrary: p)
  case 0
  then show ?case by simp
next
  case (Suc n)
  show ?case
  proof (cases "find (\<lambda>i. settled (calls p ! i) \<noteq> None) (processing p)")
    case None
    then show ?thesis by simp
  next
    case (Some i)
    then have i: "i \<in> set (processing p)" "settled (calls p ! i) \<noteq> None"
      by (auto simp: find_Some_iff)
    from on_resolved_size[OF this, of opened now] Suc.prems
    have "length (processing (on_resolved opened now i p))
            + length (queue (on_resolved opened now i p)) \<le> n"
      by simp
    from Suc.IH[OF this] show ?thesis using Some by simp
  qed
qed

lemma run_all_callbacks_done:
  "find (\<lambda>i. settled (calls (run_all_callbacks opened now p) ! i) \<noteq> None)
     (processing (run_all_callbacks opened now p)) = None"
  unfolding run_all_callbacks_def by (rule callbacks_run_to_completion) simp

lemma both_started_eq:
  "both_started =
     \<lparr>cache = \<lparr>cache_results = [], cache_processing = [JNum 7]\<rparr>,
      queue = [], calls = [waiting_call, waiting_call], processing = [0, 1],
      results = [], uncaught = []\<rparr>"
  by (simp add: both_started_def extractAddresses_def duplicate_pairs_def processNext_def
        maxConcurrent_def extractAddress_def always_opens_def empty_extractor_cache_def
        set_add_def run_all_callbacks_def waiting_call_def)

lemma both_timers_fired_eq:
  "both_timers_fired =
     \<lparr>cache = \<lparr>cache_results = [], cache_processing = []\<rparr>,
      queue = [],
      calls = [waiting_call\<lparr>window_open := False, timer_set := False,
                             settled := Some timeout_result\<rparr>,
               waiting_call\<lparr>timer_set := False\<rparr>],
      processing = [1],
      results = [timeout_result], uncaught = []\<rparr>"
  unfolding both_timers_fired_def both_started_eq
  by (simp add: run_events_def handle_event_def fire_timer_def on_timeout_def waiting_call_def
        set_delete_def resolve_def run_all_callbacks_def on_resolved_def processNext_def
        timeout_result_def)

lemma dead_on_timeout: "dead cl \<Longrightarrow> on_timeout now (cl, ex) = (cl, ex)"
  by (simp add: dead_def on_timeout_def)

lemma dead_messageHandler: "dead cl \<Longrightarrow> messageHandler d now (cl, ex) = (None, cl, ex)"
  by (simp add: dead_def messageHandler_def)

lemma blocked_dispatch: "blocked_by i p \<Longrightarrow> blocked_by i (dispatch opened now q p)"
proof (induction q arbitrary: p)
  case Nil
  then show ?case by (simp add: blocked_by_def)
next
  case (Cons item rest)
  show ?case
  proof (cases "length (processing p) < maxConcurrent")
    case False
    then show ?thesis using Cons.prems by (simp add: blocked_by_def)
  next
    case True
    obtain cl ex where e: "extractAddress (matched_sn item) (matched_id item)
                   (opened (length (calls p))) now (cache p) = (cl, ex)"
      by (cases "extractAddress (matched_sn item) (matched_id item)
                   (opened (length (calls p))) now (cache p)")
    have "blocked_by i (p\<lparr>cache := ex, calls := calls p @ [cl],
                           processing := processing p @ [length (calls p)]\<rparr>)"
      using Cons.prems by (simp add: blocked_by_def nth_append)
    from Cons.IH[OF this] show ?thesis using True e by simp
  qed
qed

lemma blocked_on_resolved: "blocked_by i p \<Longrightarrow> blocked_by i (on_resolved opened now j p)"
proof (cases "settled (calls p ! j)")
  case None
  then show "blocked_by i p \<Longrightarrow> blocked_by i (on_resolved opened now j p)"
    by (simp add: on_resolved_def)
next
  case (Some r)
  assume b: "blocked_by i p"
  then have "i \<noteq> j" using Some by (auto simp: blocked_by_def dead_def)
  then have "blocked_by i (p\<lparr>results := results p @ [r], processing := remove1 j (processing p)\<rparr>)"
    using b by (simp add: blocked_by_def)
  then show "blocked_by i (on_resolved opened now j p)"
    using Some by (simp add: on_resolved_def processNext_def blocked_dispatch)
qed

lemma blocked_run_callbacks: "blocked_by i p \<Longrightarrow> blocked_by i (run_callbacks opened now n p)"
  by (induction n arbitrary: p) (auto simp: blocked_on_resolved split: option.splits)

lemma blocked_fire_timer: "blocked_by i p \<Longrightarrow> blocked_by i (fire_timer j now p)"
proof -
  assume b: "blocked_by i p"
  show ?thesis
  proof (cases "j = i")
    case True
    then show ?thesis using b dead_on_timeout[of "calls p ! i" now "cache p"]
      by (simp add: fire_timer_def blocked_by_def)
  next
    case False
    then show ?thesis using b
      by (auto simp: fire_timer_def blocked_by_def split: prod.splits)
  qed
qed

lemma blocked_deliver_message:
  "blocked_by i p \<Longrightarrow> blocked_by i (deliver_message opened d now idxs p)"
proof (induction idxs arbitrary: p)
  case Nil
  then show ?case by simp
next
  case (Cons j rest)
  obtain err cl ex where m: "messageHandler d now (calls p ! j, cache p) = (err, cl, ex)"
    by (cases "messageHandler d now (calls p ! j, cache p)")
  have "blocked_by i (p\<lparr>calls := (calls p)[j := cl], cache := ex,
               uncaught := uncaught p @ (case err of None \<Rightarrow> [] | Some e \<Rightarrow> [e])\<rparr>)"
  proof (cases "j = i")
    case True
    then have "cl = calls p ! i"
      using Cons.prems m dead_messageHandler[of "calls p ! i" d now "cache p"]
      by (simp add: blocked_by_def)
    then show ?thesis using Cons.prems True by (simp add: blocked_by_def)
  next
    case False
    then show ?thesis using Cons.prems by (simp add: blocked_by_def)
  qed
  then have "blocked_by i (run_all_callbacks opened now
               (p\<lparr>calls := (calls p)[j := cl], cache := ex,
                  uncaught := uncaught p @ (case err of None \<Rightarrow> [] | Some e \<Rightarrow> [e])\<rparr>))"
    unfolding run_all_callbacks_def by (rule blocked_run_callbacks)
  from Cons.IH[OF this] show ?case using m by simp
qed

lemma blocked_handle_event: "blocked_by i p \<Longrightarrow> blocked_by i (handle_event opened ev p)"
  by (cases ev)
     (simp_all add: handle_event_def run_all_callbacks_def blocked_run_callbacks
        blocked_fire_timer blocked_deliver_message)

lemma blocked_run_events: "blocked_by i p \<Longrightarrow> blocked_by i (run_events opened evs p)"
  unfolding run_events_def
  by (induction evs arbitrary: p) (simp_all add: blocked_handle_event)

lemma blocked_never_returns: "blocked_by i p \<Longrightarrow> returned (run_events opened evs p) = None"
  using blocked_run_events[of i p opened evs]
  by (auto simp: blocked_by_def returned_def)

lemma malformed_delivered_eq:
  "malformed_delivered =
     \<lparr>cache = \<lparr>cache_results = [], cache_processing = [JNum 8]\<rparr>,
      queue = [],
      calls = [\<lparr>returnSn = js ''ABC123'', returnId = JNum 7, window_open = True,
                timer_set = False, listening = False, settled = None\<rparr>,
               \<lparr>returnSn = js ''XYZ789'', returnId = JNum 8, window_open = True,
                timer_set = True, listening = True, settled = None\<rparr>],
      processing = [0, 1],
      results = [], uncaught = [TypeError]\<rparr>"
proof -
  have s: "fst (extractAddresses always_opens (js ''10:00:00'') two_pairs empty_extractor_cache) =
     \<lparr>cache = \<lparr>cache_results = [], cache_processing = [JNum 7, JNum 8]\<rparr>,
      queue = [],
      calls = [\<lparr>returnSn = js ''ABC123'', returnId = JNum 7, window_open = True,
                timer_set = True, listening = True, settled = None\<rparr>,
               \<lparr>returnSn = js ''XYZ789'', returnId = JNum 8, window_open = True,
                timer_set = True, listening = True, settled = None\<rparr>],
      processing = [0, 1],
      results = [], uncaught = []\<rparr>"
    by (simp add: extractAddresses_def two_pairs_def processNext_def
        maxConcurrent_def extractAddress_def always_opens_def empty_extractor_cache_def
        set_add_def run_all_callbacks_def)
  have g: "get_prop (address_message (JNum 7) (JNum 50121)) (js ''type'')
             = JStr (js ''SHOPEE_ADDRESS_EXTRACTED'')"
    "get_prop (address_message (JNum 7) (JNum 50121)) (js ''orderId'') = JNum 7"
    "get_prop (address_message (JNum 7) (JNum 50121)) (js ''address'') = JNum 50121"
    "item_truthy (address_message (JNum 7) (JNum 50121))"
    by (simp_all add: address_message_def js_def)
  have u: "[0..<2] = [0, 1]" by (simp add: upt_rec)
  show ?thesis
    unfolding malformed_delivered_def s
    by (simp add: run_events_def handle_event_def u messageHandler_def g identifyWarehouse_def
          set_delete_def run_all_callbacks_def)
qed

lemma timer_changes_nothing:
  "handle_event always_opens (TimerFires i now) both_timers_fired = both_timers_fired"
proof -
  consider "i = 0" | "i = 1" | "2 \<le> i" by linarith
  then show ?thesis
  proof cases
    case 1
    then show ?thesis
      unfolding both_timers_fired_eq
      by (simp add: handle_event_def fire_timer_def on_timeout_def waiting_call_def
            run_all_callbacks_def)
  next
    case 2
    then show ?thesis
      unfolding both_timers_fired_eq
      by (simp add: handle_event_def fire_timer_def on_timeout_def waiting_call_def
            run_all_callbacks_def)
  next
    case 3
    then show ?thesis
      unfolding both_timers_fired_eq
      by (simp add: handle_event_def fire_timer_def run_all_callbacks_def waiting_call_def)
  qed
qed

lemma timers_change_nothing:
  "run_events always_opens (map (\<lambda>(i, now). TimerFires i now) timers) both_timers_fired
     = both_timers_fired"
  unfolding run_events_def
  by (induction timers) (auto simp: timer_changes_nothing)

text \<open>
  The callbacks run between the listeners. In the batch of four pairs the message
  settles the first call; its callback starts the fourth call, which adds the id to
  the processing set again, before the listener of the second call deletes the id. The
  fourth call is then waiting with its id out of the processing set, and its timer
  settles nothing.
\<close>

lemma three_started_eq:
  "three_started =
     \<lparr>cache = \<lparr>cache_results = [], cache_processing = [JNum 7, JNum 8]\<rparr>,
      queue = [\<lparr>matched_sn = js ''ABC123'', matched_id = JNum 7\<rparr>],
      calls = [waiting_call, waiting_call,
               waiting_call\<lparr>returnSn := js ''XYZ789'', returnId := JNum 8\<rparr>],
      processing = [0, 1, 2],
      results = [], uncaught = []\<rparr>"
  by (simp add: three_started_def extractAddresses_def four_pairs_def processNext_def
        maxConcurrent_def extractAddress_def always_opens_def empty_extractor_cache_def
        set_add_def run_all_callbacks_def waiting_call_def)

lemma answered_between_eq:
  "answered_between =
     \<lparr>cache = \<lparr>cache_results = [(js ''ABC123'', message_result)], cache_processing = [JNum 8]\<rparr>,
      queue = [],
      calls = [waiting_call\<lparr>window_open := False, timer_set := False, listening := False,
                             settled := Some message_result\<rparr>,
               waiting_call\<lparr>window_open := False, timer_set := False, listening := False,
                             settled := Some message_result\<rparr>,
               waiting_call\<lparr>returnSn := js ''XYZ789'', returnId := JNum 8\<rparr>,
               waiting_call],
      processing = [2, 3],
      results = [message_result, message_result], uncaught = []\<rparr>"
proof -
  have g: "get_prop (address_message (JNum 7) (JStr (js ''Jl. Raya 50121''))) (js ''type'')
             = JStr (js ''SHOPEE_ADDRESS_EXTRACTED'')"
    "get_prop (address_message (JNum 7) (JStr (js ''Jl. Raya 50121''))) (js ''orderId'') = JNum 7"
    "get_prop (address_message (JNum 7) (JStr (js ''Jl. Raya 50121''))) (js ''success'') = JBool True"
    "get_prop (address_message (JNum 7) (JStr (js ''Jl. Raya 50121''))) (js ''address'')
             = JStr (js ''Jl. Raya 50121'')"
    "item_truthy (address_message (JNum 7) (JStr (js ''Jl. Raya 50121'')))"
    by (simp_all add: address_message_def js_def)
  have n: "js ''Jl. Raya 50121'' \<noteq> []" by (simp add: js_def)
  have u: "[0..<3] = [0, 1, 2]" by (simp add: upt_rec)
  show ?thesis
    unfolding answered_between_def three_started_eq
    by (simp add: run_events_def handle_event_def u messageHandler_def g sample_warehouse n
          set_delete_def set_add_def resolve_def map_set_def run_all_callbacks_def on_resolved_def
          processNext_def maxConcurrent_def extractAddress_def always_opens_def waiting_call_def
          message_result_def Let_def)
qed

lemma callbacks_between_listeners:
  "cache_processing (cache answered_between) = [JNum 8]
   \<and> processing answered_between = [2, 3]
   \<and> calls answered_between ! 3 = waiting_call
   \<and> settled (calls (handle_event always_opens (TimerFires 3 (js ''10:00:35''))
                       answered_between) ! 3) = None"
  unfolding answered_between_eq
  by (simp add: handle_event_def fire_timer_def on_timeout_def waiting_call_def
        run_all_callbacks_def message_result_def)

text \<open>
  C8 fails on the code. With two pairs of the same id in flight, the first timer
  deletes the id from the processing set and settles its call; the second timer finds
  the id gone and settles nothing, so the second pair never gets a result from a
  timeout and \<open>extractAddresses\<close> has not returned, whatever timers fire later.
  With a message whose address is a number, \<open>identifyWarehouse\<close> throws out of the
  handler after the timer was cleared and the listener removed: the call is never
  settled and \<open>extractAddresses\<close> never returns, whatever happens later.
\<close>

theorem pending_pair_blocks_batch:
  "results both_timers_fired = [timeout_result]
   \<and> processing both_timers_fired = [1]
   \<and> settled (calls both_timers_fired ! 1) = None
   \<and> (\<forall>timers. returned (run_events always_opens (map (\<lambda>(i, now). TimerFires i now) timers)
                              both_timers_fired) = None)
   \<and> uncaught malformed_delivered = [TypeError]
   \<and> settled (calls malformed_delivered ! 0) = None
   \<and> (\<forall>evs. returned (run_events always_opens evs malformed_delivered) = None)"
proof -
  have "blocked_by 0 malformed_delivered"
    unfolding malformed_delivered_eq by (simp add: blocked_by_def dead_def)
  then have a: "\<forall>evs. returned (run_events always_opens evs malformed_delivered) = None"
    using blocked_never_returns by blast
  have b: "returned both_timers_fired = None"
    unfolding both_timers_fired_eq by (simp add: returned_def)
  show ?thesis
    using a b
    by (simp add: timers_change_nothing)
       (simp add: both_timers_fired_eq malformed_delivered_eq waiting_call_def)
qed

end
